theory Spec2Isabelle
  imports Complex_Main
begin

section \<open>The terminal process wrapper of terminalProcess.ts\<close>

text \<open>
  The class \<open>TerminalProcess\<close> wraps one pty handle. Its fields become a record, its
  methods and callbacks become functions from session to session, and everything the
  class does to the outside (calls on the pty handle, calls of \<open>fire\<close> on its
  emitters, calls of the timer functions of the runtime) is appended to one trace, in
  program order.
\<close>

subsection \<open>Numbers\<close>

text \<open>The dimensions handed to \<open>resize\<close> and to the constructor have the type
  \<open>number\<close> of the source language: a finite value, one of the two infinities, or
  \<open>NaN\<close>. Every finite double is a rational number, and the operations used here
  (\<open>Math.max\<close> and comparison) return one of their arguments or a truth value, so
  rationals stand for the finite values exactly. The two zeros are not told apart.\<close>

datatype number = Finite rat | PosInf | NegInf | NaN

text \<open>\<open>Math.max\<close> of two arguments: \<open>NaN\<close> as soon as one argument is \<open>NaN\<close>,
  the larger argument otherwise.\<close>

fun math_max :: "number \<Rightarrow> number \<Rightarrow> number" where
  "math_max NaN b = NaN"
| "math_max a NaN = NaN"
| "math_max PosInf b = PosInf"
| "math_max a PosInf = PosInf"
| "math_max NegInf b = b"
| "math_max a NegInf = a"
| "math_max (Finite x) (Finite y) = Finite (max x y)"

text \<open>The comparisons \<open><\<close> and \<open>>=\<close> of the source language: both are false as
  soon as one side is \<open>NaN\<close>.\<close>

fun js_less :: "number \<Rightarrow> number \<Rightarrow> bool" where
  "js_less NaN b = False"
| "js_less a NaN = False"
| "js_less a NegInf = False"
| "js_less NegInf b = True"
| "js_less PosInf b = False"
| "js_less a PosInf = True"
| "js_less (Finite x) (Finite y) = (x < y)"

fun js_ge :: "number \<Rightarrow> number \<Rightarrow> bool" where
  "js_ge NaN b = False"
| "js_ge a NaN = False"
| "js_ge a b = (\<not> js_less a b)"

subsection \<open>Data\<close>

text \<open>The payloads of the four emitters. \<open>_exitCode\<close> is \<open>undefined\<close> until the
  pty reports an exit, so the payload of the exit event is an optional number.\<close>

datatype event =
  Data string
| Exit "int option"
| ProcessIdReady int
| TitleChanged string

text \<open>The three closures the class hands to \<open>setTimeout\<close> and \<open>setInterval\<close>.\<close>

datatype callback = SendProcessIdCb | TitlePollCb | CloseCb

text \<open>What the class does to its collaborators. \<open>Fired ev d\<close> is a call of
  \<open>fire\<close> with payload \<open>ev\<close>; \<open>d\<close> tells whether the emitter was still live, so
  that its listeners received the payload.\<close>

datatype effect =
  PtyWrite string
| PtyResize number number
| PtyKill
| Fired event bool
| SetTimeout nat callback nat
| SetInterval nat callback nat
| ClearTimeout nat

text \<open>The part of \<open>pty.IPty\<close> the class reads: \<open>pid\<close> and \<open>process\<close> (the title).\<close>

record ipty =
  pid :: int
  process :: string

text \<open>Modelled from the spec: the class \<open>Emitter\<close> of \<open>vs/base/common/event\<close> is
  not part of the sources at hand. The spec says that each stream delivers to the
  consumers subscribed at the time of firing, and that a closed stream allows no further
  emission. The model keeps the one bit that decides delivery.\<close>

record emitter =
  disposed :: bool

text \<open>A pending timer of the runtime: its handle, the time it is due, the closure to
  run, and the period when it was made by \<open>setInterval\<close>.\<close>

record timer =
  tid :: nat
  due :: nat
  cb :: callback
  period :: "nat option"

text \<open>The fields of \<open>TerminalProcess\<close>, followed by the state of the runtime the
  class runs in (clock, pending timers, next timer handle) and the trace.\<close>

record session =
  exitCode :: "int option"
  closeTimeout :: "nat option"
  ptyProcess :: ipty
  currentTitle :: string
  onProcessData :: emitter
  onProcessExit :: emitter
  onProcessIdReady :: emitter
  onProcessTitleChanged :: emitter
  now :: nat
  timers :: "timer list"
  nextTimer :: nat
  trace :: "effect list"

subsection \<open>The runtime: emitters, timers, the pty handle\<close>

definition fire :: "emitter \<Rightarrow> event \<Rightarrow> session \<Rightarrow> session" where
  "fire e ev s = s\<lparr>trace := trace s @ [Fired ev (\<not> disposed e)]\<rparr>"

text \<open>\<open>setTimeout\<close> returns a fresh handle. Under Node the handle is an object, so a
  stored handle is always truthy: \<open>if (this._closeTimeout)\<close> is the test
  \<open>closeTimeout s \<noteq> None\<close>.\<close>

definition setTimeout :: "callback \<Rightarrow> nat \<Rightarrow> session \<Rightarrow> nat \<times> session" where
  "setTimeout c delay s =
     (nextTimer s,
      s\<lparr>timers := timers s @ [\<lparr>tid = nextTimer s, due = now s + delay, cb = c, period = None\<rparr>],
        nextTimer := nextTimer s + 1,
        trace := trace s @ [SetTimeout (nextTimer s) c delay]\<rparr>)"

definition setInterval :: "callback \<Rightarrow> nat \<Rightarrow> session \<Rightarrow> nat \<times> session" where
  "setInterval c delay s =
     (nextTimer s,
      s\<lparr>timers := timers s @ [\<lparr>tid = nextTimer s, due = now s + delay, cb = c, period = Some delay\<rparr>],
        nextTimer := nextTimer s + 1,
        trace := trace s @ [SetInterval (nextTimer s) c delay]\<rparr>)"

definition clearTimeout :: "nat \<Rightarrow> session \<Rightarrow> session" where
  "clearTimeout h s =
     s\<lparr>timers := filter (\<lambda>t. tid t \<noteq> h) (timers s),
       trace := trace s @ [ClearTimeout h]\<rparr>"

definition pty_kill :: "session \<Rightarrow> session" where
  "pty_kill s = s\<lparr>trace := trace s @ [PtyKill]\<rparr>"

definition pty_write :: "string \<Rightarrow> session \<Rightarrow> session" where
  "pty_write d s = s\<lparr>trace := trace s @ [PtyWrite d]\<rparr>"

definition pty_resize :: "number \<Rightarrow> number \<Rightarrow> session \<Rightarrow> session" where
  "pty_resize c r s = s\<lparr>trace := trace s @ [PtyResize c r]\<rparr>"

subsection \<open>The methods of TerminalProcess\<close>

definition dispose :: "session \<Rightarrow> session" where
  "dispose s =
     s\<lparr>onProcessData := (onProcessData s)\<lparr>disposed := True\<rparr>,
       onProcessExit := (onProcessExit s)\<lparr>disposed := True\<rparr>,
       onProcessIdReady := (onProcessIdReady s)\<lparr>disposed := True\<rparr>,
       onProcessTitleChanged := (onProcessTitleChanged s)\<lparr>disposed := True\<rparr>\<rparr>"

definition sendProcessId :: "session \<Rightarrow> session" where
  "sendProcessId s = fire (onProcessIdReady s) (ProcessIdReady (pid (ptyProcess s))) s"

definition sendProcessTitle :: "session \<Rightarrow> session" where
  "sendProcessTitle s =
     (let s1 = s\<lparr>currentTitle := process (ptyProcess s)\<rparr>
      in fire (onProcessTitleChanged s1) (TitleChanged (currentTitle s1)) s1)"

text \<open>The closure given to \<open>setInterval\<close> in \<open>_setupTitlePolling\<close>.\<close>

definition titlePoll :: "session \<Rightarrow> session" where
  "titlePoll s =
     (if currentTitle s \<noteq> process (ptyProcess s) then sendProcessTitle s else s)"

definition setupTitlePolling :: "session \<Rightarrow> session" where
  "setupTitlePolling s = snd (setInterval TitlePollCb 200 (sendProcessTitle s))"

text \<open>The closure given to \<open>setTimeout\<close> in \<open>_queueProcessExit\<close>.\<close>

definition closeNow :: "session \<Rightarrow> session" where
  "closeNow s =
     (let s1 = pty_kill s;
          s2 = fire (onProcessExit s1) (Exit (exitCode s1)) s1
      in dispose s2)"

definition queueProcessExit :: "session \<Rightarrow> session" where
  "queueProcessExit s =
     (let s1 = (case closeTimeout s of Some h \<Rightarrow> clearTimeout h s | None \<Rightarrow> s);
          (h', s2) = setTimeout CloseCb 250 s1
      in s2\<lparr>closeTimeout := Some h'\<rparr>)"

text \<open>The two listeners registered on the pty handle in the constructor.\<close>

definition onPtyData :: "string \<Rightarrow> session \<Rightarrow> session" where
  "onPtyData d s =
     (let s1 = fire (onProcessData s) (Data d) s
      in case closeTimeout s1 of
           Some h \<Rightarrow> queueProcessExit (clearTimeout h s1)
         | None \<Rightarrow> s1)"

definition onPtyExit :: "int \<Rightarrow> session \<Rightarrow> session" where
  "onPtyExit code s = queueProcessExit (s\<lparr>exitCode := Some code\<rparr>)"

definition shutdown :: "session \<Rightarrow> session" where
  "shutdown s = queueProcessExit s"

definition input :: "string \<Rightarrow> session \<Rightarrow> session" where
  "input d s = pty_write d s"

definition resize :: "number \<Rightarrow> number \<Rightarrow> session \<Rightarrow> session" where
  "resize cols rows s = pty_resize (math_max cols (Finite 1)) (math_max rows (Finite 1)) s"

subsection \<open>The constructor\<close>

record shellLaunchConfig =
  executable :: string
  args :: "string list"

record ptyForkOptions =
  opt_name :: string
  opt_cwd :: string
  opt_env :: "(string \<times> string) list"
  opt_cols :: number
  opt_rows :: number

datatype spawn_error = SpawnError

text \<open>What the constructor takes from outside the class: \<open>os.platform()\<close>,
  \<open>path.basename\<close> and \<open>pty.spawn\<close>, which either throws or returns a handle.\<close>

record host =
  os_platform :: string
  path_basename :: "string \<Rightarrow> string"
  pty_spawn :: "string \<Rightarrow> string list \<Rightarrow> ptyForkOptions \<Rightarrow> spawn_error + ipty"

text \<open>The constructor body from the line after \<open>pty.spawn\<close>: the fields take their
  initial values, the delayed \<open>_sendProcessId\<close> is scheduled, title polling starts.
  The clock starts at 0 and timer handles at 1.\<close>

definition constructWith :: "ipty \<Rightarrow> session" where
  "constructWith p =
     (let s0 = \<lparr>exitCode = None, closeTimeout = None, ptyProcess = p, currentTitle = [],
                onProcessData = \<lparr>disposed = False\<rparr>, onProcessExit = \<lparr>disposed = False\<rparr>,
                onProcessIdReady = \<lparr>disposed = False\<rparr>,
                onProcessTitleChanged = \<lparr>disposed = False\<rparr>,
                now = 0, timers = [], nextTimer = 1, trace = []\<rparr>;
          s1 = snd (setTimeout SendProcessIdCb 500 s0)
      in setupTitlePolling s1)"

definition shellName :: "host \<Rightarrow> shellLaunchConfig \<Rightarrow> string" where
  "shellName h cfg =
     (if os_platform h = ''win32'' then path_basename h (executable cfg)
      else ''xterm-256color'')"

definition construct ::
  "host \<Rightarrow> shellLaunchConfig \<Rightarrow> string \<Rightarrow> number \<Rightarrow> number \<Rightarrow> (string \<times> string) list
     \<Rightarrow> spawn_error + session" where
  "construct h cfg cwd cols rows env =
     (let options = \<lparr>opt_name = shellName h cfg, opt_cwd = cwd, opt_env = env,
                     opt_cols = cols, opt_rows = rows\<rparr>
      in case pty_spawn h (executable cfg) (args cfg) options of
           Inl e \<Rightarrow> Inl e
         | Inr p \<Rightarrow> Inr (constructWith p))"

subsection \<open>Executions\<close>

text \<open>One unit of time passes: the clock advances, every timer due at the new time is
  taken (a one-shot timer is removed, an interval is re-armed one period later), and the
  closures of the timers taken run in the order the timers were created. No closure of
  this class sets or clears a timer, so taking the timers first changes nothing.\<close>

fun runCallback :: "callback \<Rightarrow> session \<Rightarrow> session" where
  "runCallback SendProcessIdCb s = sendProcessId s"
| "runCallback TitlePollCb s = titlePoll s"
| "runCallback CloseCb s = closeNow s"

definition rearm :: "nat \<Rightarrow> timer \<Rightarrow> timer list" where
  "rearm t x =
     (if due x = t
      then (case period x of None \<Rightarrow> [] | Some p \<Rightarrow> [x\<lparr>due := due x + p\<rparr>])
      else [x])"

definition tick :: "session \<Rightarrow> session" where
  "tick s =
     (let t = now s + 1;
          dueNow = filter (\<lambda>x. due x = t) (timers s);
          s1 = s\<lparr>now := t, timers := concat (map (rearm t) (timers s))\<rparr>
      in fold runCallback (map cb dueNow) s1)"

text \<open>What can happen to a session: the pty handle calls one of its two listeners or
  changes its title, time passes, or a caller invokes a public method.\<close>

datatype stimulus =
  RawData string
| RawExit int
| SetTitle string
| Tick
| CallShutdown
| CallInput string
| CallResize number number
| CallDispose

fun step :: "stimulus \<Rightarrow> session \<Rightarrow> session" where
  "step (RawData d) s = onPtyData d s"
| "step (RawExit c) s = onPtyExit c s"
| "step (SetTitle t) s = s\<lparr>ptyProcess := (ptyProcess s)\<lparr>process := t\<rparr>\<rparr>"
| "step Tick s = tick s"
| "step CallShutdown s = shutdown s"
| "step (CallInput d) s = input d s"
| "step (CallResize c r) s = resize c r s"
| "step CallDispose s = dispose s"

definition run :: "session \<Rightarrow> stimulus list \<Rightarrow> session" where
  "run s xs = fold step xs s"

text \<open>Projections of the trace: the payloads that reached listeners, and the number of
  kills of the pty process.\<close>

fun delivered :: "effect list \<Rightarrow> event list" where
  "delivered [] = []"
| "delivered (Fired ev True # es) = ev # delivered es"
| "delivered (e # es) = delivered es"

definition kills :: "effect list \<Rightarrow> nat" where
  "kills es = length (filter (\<lambda>e. e = PtyKill) es)"

fun isExit :: "event \<Rightarrow> bool" where
  "isExit (Exit c) = True"
| "isExit ev = False"

fun isData :: "event \<Rightarrow> bool" where
  "isData (Data d) = True"
| "isData ev = False"

definition allDisposed :: "session \<Rightarrow> bool" where
  "allDisposed s \<longleftrightarrow>
     disposed (onProcessData s) \<and> disposed (onProcessExit s) \<and>
     disposed (onProcessIdReady s) \<and> disposed (onProcessTitleChanged s)"

subsection \<open>Invariants of executions\<close>

text \<open>An exit payload that reached listeners is the last payload that did, and by then
  all four emitters are disposed.\<close>

definition exitInv :: "session \<Rightarrow> bool" where
  "exitInv s \<longleftrightarrow>
     \<not> list_ex isExit (butlast (delivered (trace s))) \<and>
     (list_ex isExit (delivered (trace s)) \<longrightarrow> allDisposed s)"

text \<open>Every pending close timer is the one whose handle is stored in \<open>_closeTimeout\<close>,
  and it is a one-shot timer.\<close>

definition closeInv :: "session \<Rightarrow> bool" where
  "closeInv s \<longleftrightarrow>
     (\<forall>x\<in>set (timers s). cb x = CloseCb \<longrightarrow> closeTimeout s = Some (tid x) \<and> period x = None)"

text \<open>The times at which pending close timers are due.\<close>

definition closeDues :: "session \<Rightarrow> nat list" where
  "closeDues s = map due (filter (\<lambda>x. cb x = CloseCb) (timers s))"

text \<open>The data and exit payloads that reached listeners, in order.\<close>

definition dataExit :: "effect list \<Rightarrow> event list" where
  "dataExit es = filter (\<lambda>ev. isData ev \<or> isExit ev) (delivered es)"

text \<open>What a step that is none of raw data, raw exit, shutdown, dispose and close leaves
  alone.\<close>

definition quietView ::
  "session \<Rightarrow> int option \<times> nat option \<times> bool \<times> bool \<times> nat \<times> event list" where
  "quietView s =
     (exitCode s, closeTimeout s, disposed (onProcessData s), disposed (onProcessExit s),
      kills (trace s), dataExit (trace s))"

text \<open>A burst of chunks: before each chunk the given number of time units pass.\<close>

definition burst :: "(nat \<times> string) list \<Rightarrow> stimulus list" where
  "burst chunks = concat (map (\<lambda>(n, d). replicate n Tick @ [RawData d]) chunks)"

text \<open>The one-shot timer the constructor sets for \<open>_sendProcessId\<close>.\<close>

definition pidTimer :: timer where
  "pidTimer = \<lparr>tid = 1, due = 500, cb = SendProcessIdCb, period = None\<rparr>"

fun isPid :: "event \<Rightarrow> bool" where
  "isPid (ProcessIdReady n) = True"
| "isPid ev = False"

fun isPidFire :: "effect \<Rightarrow> bool" where
  "isPidFire (Fired ev b) = isPid ev"
| "isPidFire e = False"

text \<open>Until time 500 the timer of \<open>_sendProcessId\<close> is pending, it is the oldest
  pending timer, and nothing was fired on the id emitter; from then on no such timer is
  pending and exactly one fire was made, with the pid of the handle. A close timer never
  has the handle 1 or 2.\<close>

definition pidInv :: "int \<Rightarrow> session \<Rightarrow> bool" where
  "pidInv n s \<longleftrightarrow>
     pid (ptyProcess s) = n \<and> 3 \<le> nextTimer s \<and>
     (\<forall>h. closeTimeout s = Some h \<longrightarrow> 3 \<le> h) \<and>
     (if now s < 500
      then (\<exists>rest. timers s = pidTimer # rest \<and> (\<forall>x\<in>set rest. cb x \<noteq> SendProcessIdCb)) \<and>
           filter isPidFire (trace s) = []
      else (\<forall>x\<in>set (timers s). cb x \<noteq> SendProcessIdCb) \<and>
           (\<exists>b. filter isPidFire (trace s) = [Fired (ProcessIdReady n) b]))"

text \<open>The interval the constructor sets for the title poll, as it is pending at time
  \<open>t\<close>: due at the next multiple of 200.\<close>

definition titleTimer :: "nat \<Rightarrow> timer" where
  "titleTimer t = \<lparr>tid = 2, due = t + (200 - t mod 200), cb = TitlePollCb, period = Some 200\<rparr>"

text \<open>The title interval is always pending, exactly once. A close timer never has the
  handle 1 or 2.\<close>

definition titleInv :: "session \<Rightarrow> bool" where
  "titleInv s \<longleftrightarrow>
     3 \<le> nextTimer s \<and> (\<forall>h. closeTimeout s = Some h \<longrightarrow> 3 \<le> h) \<and>
     filter (\<lambda>x. cb x = TitlePollCb) (timers s) = [titleTimer (now s)]"

text \<open>The titles handed to \<open>fire\<close> on the title emitter, delivered or not, in order.\<close>

fun titles :: "effect list \<Rightarrow> string list" where
  "titles [] = []"
| "titles (Fired (TitleChanged t) b # es) = t # titles es"
| "titles (e # es) = titles es"

fun isTitle :: "event \<Rightarrow> bool" where
  "isTitle (TitleChanged t) = True"
| "isTitle ev = False"

text \<open>What a poll fires: the title of the handle when it differs from the stored one.\<close>

definition pollOut :: "session \<Rightarrow> string list" where
  "pollOut s = (if currentTitle s \<noteq> process (ptyProcess s) then [process (ptyProcess s)] else [])"

text \<open>What only a title poll changes.\<close>

definition titleView :: "session \<Rightarrow> string \<times> string list \<times> event list" where
  "titleView s = (currentTitle s, titles (trace s), filter isTitle (delivered (trace s)))"

text \<open>The stimuli that leave the close debounce alone: time passing, a title change of
  the handle, and calls of \<open>input\<close> and \<open>resize\<close>.\<close>

fun calm :: "stimulus \<Rightarrow> bool" where
  "calm Tick = True"
| "calm (SetTitle t) = True"
| "calm (CallInput d) = True"
| "calm (CallResize c r) = True"
| "calm x = False"

section \<open>Basic facts\<close>

lemmas prim_defs = fire_def setTimeout_def setInterval_def clearTimeout_def pty_kill_def
  pty_write_def pty_resize_def
lemmas meth_defs = dispose_def sendProcessId_def sendProcessTitle_def titlePoll_def
  setupTitlePolling_def closeNow_def queueProcessExit_def onPtyData_def onPtyExit_def
  shutdown_def input_def resize_def

lemma delivered_append: "delivered (es @ fs) = delivered es @ delivered fs"
  by (induction es rule: delivered.induct) simp_all

lemma delivered_Fired [simp]:
  "delivered (Fired ev b # es) = (if b then ev # delivered es else delivered es)"
  by (cases b) simp_all

lemma run_Nil: "run s [] = s"
  by (simp add: run_def)

lemma run_Cons: "run s (x # xs) = run (step x s) xs"
  by (simp add: run_def)

lemma run_append: "run s (xs @ ys) = run (run s xs) ys"
  by (simp add: run_def)

lemma tick_unfold:
  "tick s = fold runCallback (map cb (filter (\<lambda>x. due x = now s + 1) (timers s)))
     (s\<lparr>now := now s + 1, timers := concat (map (rearm (now s + 1)) (timers s))\<rparr>)"
  by (simp add: tick_def Let_def)

lemma callback_frame:
  "timers (runCallback c s) = timers s \<and> now (runCallback c s) = now s \<and>
   nextTimer (runCallback c s) = nextTimer s \<and> closeTimeout (runCallback c s) = closeTimeout s \<and>
   ptyProcess (runCallback c s) = ptyProcess s \<and> exitCode (runCallback c s) = exitCode s"
  by (cases c) (simp_all add: prim_defs meth_defs Let_def)

lemma fold_frame:
  "timers (fold runCallback cs s) = timers s \<and> now (fold runCallback cs s) = now s \<and>
   nextTimer (fold runCallback cs s) = nextTimer s \<and>
   closeTimeout (fold runCallback cs s) = closeTimeout s \<and>
   ptyProcess (fold runCallback cs s) = ptyProcess s \<and>
   exitCode (fold runCallback cs s) = exitCode s"
  by (induction cs arbitrary: s) (simp_all add: callback_frame)

lemma now_step: "now (step x s) = now s + (if x = Tick then 1 else 0)"
proof (cases x)
  case Tick
  then show ?thesis using fold_frame by (simp add: tick_def Let_def)
qed (auto simp: prim_defs meth_defs Let_def split: option.splits prod.splits)

lemma now_run: "now (run s xs) = now s + length (filter (\<lambda>x. x = Tick) xs)"
  unfolding run_def by (induction xs arbitrary: s) (simp_all add: now_step)

lemma now_construct: "now (constructWith p) = 0"
  by (simp add: constructWith_def prim_defs meth_defs Let_def)

lemma rearm_cb: "filter (\<lambda>x. cb x = k) (concat (map (rearm t) ts))
   = concat (map (rearm t) (filter (\<lambda>x. cb x = k) ts))"
  by (induction ts) (auto simp: rearm_def split: option.splits)

lemma due_cb: "filter (\<lambda>c. c = k) (map cb (filter (\<lambda>x. due x = t) ts))
   = map cb (filter (\<lambda>x. due x = t) (filter (\<lambda>x. cb x = k) ts))"
  by (induction ts) auto

lemma rearm_same:
  "y \<in> set (concat (map (rearm t) ts)) \<Longrightarrow>
   \<exists>x\<in>set ts. cb y = cb x \<and> tid y = tid x \<and> period y = period x"
  by (induction ts) (auto simp: rearm_def split: option.splits if_splits)

lemma rearm_not_due: "\<forall>x\<in>set ys. due x \<noteq> t \<Longrightarrow> concat (map (rearm t) ys) = ys"
  by (induction ys) (auto simp: rearm_def)

lemma exitInv_callback: "exitInv s \<Longrightarrow> exitInv (runCallback c s)"
  by (cases c)
    (auto simp: exitInv_def allDisposed_def prim_defs meth_defs Let_def delivered_append
      butlast_append list_ex_iff dest: in_set_butlastD)

lemma exitInv_fold: "exitInv s \<Longrightarrow> exitInv (fold runCallback cs s)"
  by (induction cs arbitrary: s) (simp_all add: exitInv_callback)

lemma exitInv_tick: "exitInv s \<Longrightarrow> exitInv (tick s)"
  unfolding tick_def Let_def
  by (rule exitInv_fold) (simp add: exitInv_def allDisposed_def)

lemma exitInv_step: "exitInv s \<Longrightarrow> exitInv (step x s)"
proof (cases x)
  case Tick
  assume "exitInv s" then show ?thesis using Tick by (simp add: exitInv_tick)
qed (auto simp: exitInv_def allDisposed_def prim_defs meth_defs Let_def delivered_append
      butlast_append list_ex_iff split: option.splits prod.splits dest: in_set_butlastD)

lemma exitInv_run: "exitInv s \<Longrightarrow> exitInv (run s xs)"
  unfolding run_def by (induction xs arbitrary: s) (simp_all add: exitInv_step)

lemma exitInv_construct: "exitInv (constructWith p)"
  by (simp add: exitInv_def constructWith_def allDisposed_def prim_defs meth_defs Let_def)

section \<open>Resize\<close>

lemma math_max_one:
  "a \<noteq> NaN \<Longrightarrow> js_ge (math_max a (Finite 1)) (Finite 1)"
  "js_ge (Finite 0) a \<Longrightarrow> math_max a (Finite 1) = Finite 1"
  by (cases a; simp)+

text \<open>For every pair of dimensions \<open>resize\<close> forwards \<open>Math.max(cols, 1)\<close> and
  \<open>Math.max(rows, 1)\<close>. A dimension that is zero or negative is forwarded as exactly 1,
  and when neither dimension is \<open>NaN\<close> both forwarded values are at least 1.\<close>

lemma resize_clamps_numbers:
  "trace (resize cols rows s)
     = trace s @ [PtyResize (math_max cols (Finite 1)) (math_max rows (Finite 1))]"
  "js_ge (Finite 0) cols \<Longrightarrow> math_max cols (Finite 1) = Finite 1"
  "js_ge (Finite 0) rows \<Longrightarrow> math_max rows (Finite 1) = Finite 1"
  "cols \<noteq> NaN \<Longrightarrow> rows \<noteq> NaN \<Longrightarrow>
   js_ge (math_max cols (Finite 1)) (Finite 1) \<and> js_ge (math_max rows (Finite 1)) (Finite 1)"
  by (simp_all add: resize_def pty_resize_def math_max_one)

text \<open>Claim C7. The claim says that the handle is never resized with a dimension below 1,
  and the comment in \<open>resize\<close> says that columns and rows are always at least 1. The
  code misses one case: \<open>Math.max(NaN, 1)\<close> is \<open>NaN\<close>, so a call with a \<open>NaN\<close>
  dimension hands \<open>NaN\<close> to the handle, and \<open>NaN >= 1\<close> is false.\<close>

theorem resize_nan_forwarded:
  "trace (resize NaN (Finite 24) s) = trace s @ [PtyResize NaN (Finite 24)] \<and>
   trace (run (constructWith \<lparr>pid = 42, process = ''bash''\<rparr>) [CallResize (Finite 80) NaN])
     = trace (constructWith \<lparr>pid = 42, process = ''bash''\<rparr>) @ [PtyResize (Finite 80) NaN] \<and>
   \<not> js_ge NaN (Finite 1)"
  by (simp add: resize_def pty_resize_def run_def)

section \<open>Dispose\<close>

text \<open>Claim C10. The public method \<open>dispose\<close> disposes the four emitters and
  touches nothing else: it makes no call on the pty handle (no kill), it leaves the
  pending timers as they are (a pending close timer and the title interval stay), and
  every other field keeps its value.\<close>

theorem dispose_only_emitters:
  "allDisposed (dispose s) \<and>
   trace (dispose s) = trace s \<and> kills (trace (dispose s)) = kills (trace s) \<and>
   timers (dispose s) = timers s \<and> closeTimeout (dispose s) = closeTimeout s \<and>
   ptyProcess (dispose s) = ptyProcess s \<and> exitCode (dispose s) = exitCode s \<and>
   currentTitle (dispose s) = currentTitle s \<and> now (dispose s) = now s \<and>
   nextTimer (dispose s) = nextTimer s"
  by (simp add: dispose_def allDisposed_def)

section \<open>Exit is delivered once, and last\<close>

text \<open>Claim C1. In every execution of every session, at most one exit payload reaches
  the listeners, and no data payload reaches them after the exit payload did.\<close>

theorem exit_once_no_data_after:
  "length (filter isExit (delivered (trace (run (constructWith p) xs)))) \<le> 1 \<and>
   (\<forall>pre c post. delivered (trace (run (constructWith p) xs)) = pre @ Exit c # post
      \<longrightarrow> \<not> list_ex isData post)"
proof -
  let ?evs = "delivered (trace (run (constructWith p) xs))"
  have "exitInv (run (constructWith p) xs)"
    by (rule exitInv_run) (rule exitInv_construct)
  then have nb: "\<not> list_ex isExit (butlast ?evs)"
    by (simp add: exitInv_def)
  have one: "length (filter isExit ?evs) \<le> 1"
  proof (cases "?evs = []")
    case True
    then show ?thesis by simp
  next
    case False
    then have "?evs = butlast ?evs @ [last ?evs]" by simp
    then have "filter isExit ?evs = filter isExit (butlast ?evs) @ filter isExit [last ?evs]"
      by (metis filter_append)
    moreover have "filter isExit (butlast ?evs) = []"
      using nb by (simp add: list_ex_iff filter_empty_conv)
    ultimately show ?thesis by simp
  qed
  have "post = []" if "?evs = pre @ Exit c # post" for pre c post
  proof (rule ccontr)
    assume "post \<noteq> []"
    then have "butlast ?evs = pre @ Exit c # butlast post"
      using that by (simp add: butlast_append)
    then show False using nb by (simp add: list_ex_iff)
  qed
  then have "\<forall>pre c post. ?evs = pre @ Exit c # post \<longrightarrow> \<not> list_ex isData post"
    by fastforce
  with one show ?thesis by blast
qed

theorem exit_once_no_data_after_witness:
  "delivered (trace (run (constructWith \<lparr>pid = 42, process = ''bash''\<rparr>)
      ([RawExit 3, RawData ''a''] @ replicate 250 Tick @ [RawData ''b''])))
     = [TitleChanged ''bash'', Data ''a''] @ Exit (Some 3) # [] \<and>
   \<not> list_ex isData [] \<and>
   length (filter isExit (delivered (trace (run (constructWith \<lparr>pid = 42, process = ''bash''\<rparr>)
      ([RawExit 3, RawData ''a''] @ replicate 250 Tick @ [RawData ''b'']))))) \<le> 1"
proof -
  have e: "delivered (trace (run (constructWith \<lparr>pid = 42, process = ''bash''\<rparr>)
      ([RawExit 3, RawData ''a''] @ replicate 250 Tick @ [RawData ''b''])))
     = [TitleChanged ''bash'', Data ''a''] @ Exit (Some 3) # []"
    by code_simp
  show ?thesis
    using e exit_once_no_data_after [of "\<lparr>pid = 42, process = ''bash''\<rparr>"
        "[RawExit 3, RawData ''a''] @ replicate 250 Tick @ [RawData ''b'']"]
    by simp
qed

section \<open>After all emitters are disposed\<close>

lemma quiet_callback:
  "allDisposed s \<Longrightarrow>
   allDisposed (runCallback c s) \<and> delivered (trace (runCallback c s)) = delivered (trace s)"
  by (cases c) (auto simp: allDisposed_def prim_defs meth_defs Let_def delivered_append)

lemma quiet_fold:
  "allDisposed s \<Longrightarrow>
   allDisposed (fold runCallback cs s) \<and>
   delivered (trace (fold runCallback cs s)) = delivered (trace s)"
  by (induction cs arbitrary: s) (simp_all add: quiet_callback)

lemma quiet_tick:
  assumes "allDisposed s"
  shows "allDisposed (tick s) \<and> delivered (trace (tick s)) = delivered (trace s)"
proof -
  let ?s1 = "s\<lparr>now := now s + 1, timers := concat (map (rearm (now s + 1)) (timers s))\<rparr>"
  have "allDisposed ?s1" using assms by (simp add: allDisposed_def)
  from quiet_fold [OF this] show ?thesis by (simp add: tick_def Let_def)
qed

lemma quiet_step:
  "allDisposed s \<Longrightarrow>
   allDisposed (step x s) \<and> delivered (trace (step x s)) = delivered (trace s)"
proof (cases x)
  case Tick
  assume "allDisposed s" then show ?thesis using Tick by (simp add: quiet_tick)
qed (auto simp: allDisposed_def prim_defs meth_defs Let_def delivered_append
      split: option.splits prod.splits)

lemma quiet_run:
  "allDisposed s \<Longrightarrow>
   allDisposed (run s xs) \<and> delivered (trace (run s xs)) = delivered (trace s)"
  unfolding run_def by (induction xs arbitrary: s) (simp_all add: quiet_step)

section \<open>The close action\<close>

text \<open>Claim C3, as amended. The closure that runs when the close timer expires kills
  the pty process, then fires the exit event with the exit code recorded last (delivered
  when the exit emitter was still live), then disposes the four emitters, after which no
  execution delivers another payload on any stream. It cancels no timer: the pending
  timers, the title-poll interval among them, are left as they were.\<close>

theorem close_action:
  "trace (closeNow s) =
     trace s @ [PtyKill, Fired (Exit (exitCode s)) (\<not> disposed (onProcessExit s))] \<and>
   allDisposed (closeNow s) \<and>
   delivered (trace (run (closeNow s) xs)) = delivered (trace (closeNow s)) \<and>
   timers (closeNow s) = timers s"
proof -
  have a: "allDisposed (closeNow s)"
    by (simp add: closeNow_def allDisposed_def prim_defs dispose_def Let_def)
  have "trace (closeNow s) =
     trace s @ [PtyKill, Fired (Exit (exitCode s)) (\<not> disposed (onProcessExit s))]"
    by (simp add: closeNow_def prim_defs dispose_def Let_def)
  moreover have "timers (closeNow s) = timers s"
    by (simp add: closeNow_def prim_defs dispose_def Let_def)
  ultimately show ?thesis using a quiet_run [OF a, of xs] by simp
qed

text \<open>The claim as stated fails: after a natural exit and a full debounce window the
  exit payload has been delivered, yet the title-poll interval is still pending, and it
  still runs and updates the stored title afterwards.\<close>

theorem close_keeps_title_poll_counterexample:
  "delivered (trace (run (constructWith \<lparr>pid = 42, process = ''bash''\<rparr>)
      (RawExit 0 # replicate 250 Tick))) = [TitleChanged ''bash'', Exit (Some 0)] \<and>
   timers (run (constructWith \<lparr>pid = 42, process = ''bash''\<rparr>)
      (RawExit 0 # replicate 250 Tick))
     = [\<lparr>tid = 1, due = 500, cb = SendProcessIdCb, period = None\<rparr>,
        \<lparr>tid = 2, due = 400, cb = TitlePollCb, period = Some 200\<rparr>] \<and>
   currentTitle (run (constructWith \<lparr>pid = 42, process = ''bash''\<rparr>)
      (RawExit 0 # replicate 250 Tick @ SetTitle ''vim'' # replicate 150 Tick)) = ''vim''"
  by code_simp

section \<open>After the exit event\<close>

text \<open>Claim C4, as amended. Once the exit payload has been delivered, whatever happens
  next (raw data, raw exit, title changes, timers, calls of the public methods), no
  further payload is delivered on any stream and the four emitters stay disposed.\<close>

theorem silent_after_exit:
  assumes "list_ex isExit (delivered (trace (run (constructWith p) xs)))"
  shows "delivered (trace (run (constructWith p) (xs @ ys)))
           = delivered (trace (run (constructWith p) xs)) \<and>
         allDisposed (run (constructWith p) (xs @ ys))"
proof -
  have "exitInv (run (constructWith p) xs)"
    by (rule exitInv_run) (rule exitInv_construct)
  with assms have "allDisposed (run (constructWith p) xs)"
    by (simp add: exitInv_def)
  from quiet_run [OF this, of ys] show ?thesis by (simp add: run_append)
qed

theorem silent_after_exit_witness:
  "list_ex isExit (delivered (trace (run (constructWith \<lparr>pid = 42, process = ''bash''\<rparr>)
      (RawExit 0 # replicate 250 Tick)))) \<and>
   delivered (trace (run (constructWith \<lparr>pid = 42, process = ''bash''\<rparr>)
      ((RawExit 0 # replicate 250 Tick) @ [RawData ''x'', SetTitle ''vim'', Tick])))
     = delivered (trace (run (constructWith \<lparr>pid = 42, process = ''bash''\<rparr>)
      (RawExit 0 # replicate 250 Tick)))"
proof -
  have h: "list_ex isExit (delivered (trace (run (constructWith \<lparr>pid = 42, process = ''bash''\<rparr>)
      (RawExit 0 # replicate 250 Tick))))"
    by code_simp
  from silent_after_exit [OF h, of "[RawData ''x'', SetTitle ''vim'', Tick]"] h
  show ?thesis by simp
qed

text \<open>The claim as stated fails: callbacks after the close are not no-ops. A data chunk
  that arrives after the exit payload was delivered finds the stale timer handle, arms a
  new close timer, and a debounce window later the pty process is killed a second
  time.\<close>

theorem closed_not_absorbing_counterexample:
  "list_ex isExit (delivered (trace (run (constructWith \<lparr>pid = 42, process = ''bash''\<rparr>)
      (RawExit 0 # replicate 250 Tick)))) \<and>
   kills (trace (run (constructWith \<lparr>pid = 42, process = ''bash''\<rparr>)
      (RawExit 0 # replicate 250 Tick))) = 1 \<and>
   closeTimeout (run (constructWith \<lparr>pid = 42, process = ''bash''\<rparr>)
      (RawExit 0 # replicate 250 Tick)) = Some 3 \<and>
   closeTimeout (run (constructWith \<lparr>pid = 42, process = ''bash''\<rparr>)
      (RawExit 0 # replicate 250 Tick @ [RawData ''x''])) = Some 4 \<and>
   list_ex (\<lambda>x. cb x = CloseCb) (timers (run (constructWith \<lparr>pid = 42, process = ''bash''\<rparr>)
      (RawExit 0 # replicate 250 Tick @ [RawData ''x'']))) \<and>
   kills (trace (run (constructWith \<lparr>pid = 42, process = ''bash''\<rparr>)
      (RawExit 0 # replicate 250 Tick @ RawData ''x'' # replicate 250 Tick))) = 2"
  by code_simp

section \<open>Input and resize\<close>

text \<open>Claim C9, as amended. The methods \<open>input\<close> and \<open>resize\<close> look at no field of
  the session: in every state, closed or not, they forward the call to the pty handle
  (resize with \<open>Math.max(cols, 1)\<close> and \<open>Math.max(rows, 1)\<close>) and change nothing else.
  What a killed handle does with the call is the handle's business.\<close>

theorem input_resize_unguarded:
  "input d s = s\<lparr>trace := trace s @ [PtyWrite d]\<rparr> \<and>
   resize cols rows s
     = s\<lparr>trace := trace s @ [PtyResize (math_max cols (Finite 1)) (math_max rows (Finite 1))]\<rparr> \<and>
   trace (run (constructWith p) (xs @ [CallInput d]))
     = trace (run (constructWith p) xs) @ [PtyWrite d] \<and>
   trace (run (constructWith p) (xs @ [CallResize cols rows]))
     = trace (run (constructWith p) xs) @
       [PtyResize (math_max cols (Finite 1)) (math_max rows (Finite 1))]"
  by (simp add: run_append input_def resize_def pty_write_def pty_resize_def run_def)

text \<open>The claim as stated fails: after the close, with all emitters disposed and the
  process killed, \<open>input\<close> and \<open>resize\<close> neither skip the call nor report an
  error; both calls reach the handle.\<close>

theorem input_after_close_counterexample:
  "list_ex isExit (delivered (trace (run (constructWith \<lparr>pid = 42, process = ''bash''\<rparr>)
      (RawExit 0 # replicate 250 Tick)))) \<and>
   allDisposed (run (constructWith \<lparr>pid = 42, process = ''bash''\<rparr>)
      (RawExit 0 # replicate 250 Tick)) \<and>
   trace (run (constructWith \<lparr>pid = 42, process = ''bash''\<rparr>)
      (RawExit 0 # replicate 250 Tick @ [CallInput ''ls'', CallResize (Finite 0) (Finite 24)]))
     = trace (run (constructWith \<lparr>pid = 42, process = ''bash''\<rparr>)
      (RawExit 0 # replicate 250 Tick)) @ [PtyWrite ''ls'', PtyResize (Finite 1) (Finite 24)]"
  by code_simp

section \<open>The close debounce\<close>

lemma dataExit_append: "dataExit (es @ fs) = dataExit es @ dataExit fs"
  by (simp add: dataExit_def delivered_append)

lemma kills_append: "kills (es @ fs) = kills es + kills fs"
  by (simp add: kills_def)

lemma nonclose_callback: "CloseCb \<noteq> c \<Longrightarrow> quietView (runCallback c s) = quietView s"
  by (cases c)
    (auto simp: quietView_def prim_defs meth_defs Let_def delivered_append
      dataExit_def kills_def)

lemma nonclose_fold: "CloseCb \<notin> set cs \<Longrightarrow> quietView (fold runCallback cs s) = quietView s"
  by (induction cs arbitrary: s) (simp_all add: nonclose_callback)

lemma closeDues_mem: "x \<in> set (timers s) \<Longrightarrow> cb x = CloseCb \<Longrightarrow> due x \<in> set (closeDues s)"
  by (auto simp: closeDues_def intro!: image_eqI [where x = x])

lemma closeInv_callback: "closeInv s \<Longrightarrow> closeInv (runCallback c s)"
  using callback_frame [of c s] by (simp add: closeInv_def)

lemma closeInv_fold: "closeInv s \<Longrightarrow> closeInv (fold runCallback cs s)"
  using fold_frame [of cs s] by (simp add: closeInv_def)

lemma closeInv_tick:
  assumes "closeInv s"
  shows "closeInv (tick s)"
proof -
  let ?s1 = "s\<lparr>now := now s + 1, timers := concat (map (rearm (now s + 1)) (timers s))\<rparr>"
  have "closeInv ?s1"
    unfolding closeInv_def
  proof (intro ballI impI)
    fix y assume y: "y \<in> set (timers ?s1)" and c: "cb y = CloseCb"
    from y obtain x where "x \<in> set (timers s)" "cb y = cb x" "tid y = tid x" "period y = period x"
      using rearm_same [of y "now s + 1" "timers s"] by auto
    with c assms show "closeTimeout ?s1 = Some (tid y) \<and> period y = None"
      by (simp add: closeInv_def)
  qed
  then show ?thesis unfolding tick_unfold by (rule closeInv_fold)
qed

lemma queue_armed:
  assumes "closeInv s"
  shows "closeInv (queueProcessExit s) \<and> closeDues (queueProcessExit s) = [now s + 250] \<and>
         closeTimeout (queueProcessExit s) \<noteq> None \<and> now (queueProcessExit s) = now s \<and>
         exitCode (queueProcessExit s) = exitCode s \<and>
         onProcessData (queueProcessExit s) = onProcessData s \<and>
         onProcessExit (queueProcessExit s) = onProcessExit s \<and>
         kills (trace (queueProcessExit s)) = kills (trace s) \<and>
         delivered (trace (queueProcessExit s)) = delivered (trace s)"
proof (cases "closeTimeout s")
  case None
  then have "filter (\<lambda>x. cb x = CloseCb) (timers s) = []"
    using assms by (auto simp: closeInv_def filter_empty_conv)
  then show ?thesis using None assms
    by (auto simp: closeInv_def closeDues_def queueProcessExit_def setTimeout_def
        kills_append delivered_append kills_def)
next
  case (Some h)
  then have "filter (\<lambda>x. tid x \<noteq> h \<and> cb x = CloseCb) (timers s) = []"
    using assms by (auto simp: closeInv_def filter_empty_conv)
  then show ?thesis using Some assms
    by (auto simp: closeInv_def closeDues_def queueProcessExit_def setTimeout_def clearTimeout_def
        kills_append delivered_append kills_def)
qed

lemma closeInv_clear: "closeInv s \<Longrightarrow> closeInv (clearTimeout h s)"
  by (simp add: closeInv_def clearTimeout_def)

lemma data_armed:
  assumes "closeInv s" and "closeTimeout s \<noteq> None"
  shows "closeInv (onPtyData d s) \<and> closeDues (onPtyData d s) = [now s + 250] \<and>
         closeTimeout (onPtyData d s) \<noteq> None \<and> now (onPtyData d s) = now s \<and>
         exitCode (onPtyData d s) = exitCode s \<and>
         onProcessData (onPtyData d s) = onProcessData s \<and>
         onProcessExit (onPtyData d s) = onProcessExit s \<and>
         kills (trace (onPtyData d s)) = kills (trace s) \<and>
         dataExit (trace (onPtyData d s))
           = dataExit (trace s) @ (if disposed (onProcessData s) then [] else [Data d])"
proof -
  from assms(2) obtain h where h: "closeTimeout s = Some h" by auto
  let ?s1 = "fire (onProcessData s) (Data d) s"
  let ?s2 = "clearTimeout h ?s1"
  have eq: "onPtyData d s = queueProcessExit ?s2"
    using h by (simp add: onPtyData_def Let_def fire_def)
  have "closeInv ?s1" using assms(1) by (simp add: closeInv_def fire_def)
  then have "closeInv ?s2" by (rule closeInv_clear)
  from queue_armed [OF this] show ?thesis
    unfolding eq
    by (auto simp: fire_def clearTimeout_def kills_append kills_def dataExit_def delivered_append)
qed

lemma closeInv_step: "closeInv s \<Longrightarrow> closeInv (step x s)"
proof (cases x)
  case Tick
  assume "closeInv s" then show ?thesis using Tick by (simp add: closeInv_tick)
next
  case (RawData d)
  assume a: "closeInv s"
  show ?thesis
  proof (cases "closeTimeout s")
    case None
    then show ?thesis using a RawData by (simp add: onPtyData_def Let_def fire_def closeInv_def)
  next
    case (Some h)
    then show ?thesis using data_armed [OF a, of d] RawData by simp
  qed
next
  case (RawExit c)
  assume "closeInv s"
  then have "closeInv (s\<lparr>exitCode := Some c\<rparr>)" by (simp add: closeInv_def)
  from queue_armed [OF this] show ?thesis using RawExit by (simp add: onPtyExit_def)
next
  case CallShutdown
  assume "closeInv s"
  from queue_armed [OF this] show ?thesis using CallShutdown by (simp add: shutdown_def)
qed (auto simp: closeInv_def prim_defs meth_defs)

lemma closeInv_run: "closeInv s \<Longrightarrow> closeInv (run s xs)"
  unfolding run_def by (induction xs arbitrary: s) (simp_all add: closeInv_step)

lemma closeInv_construct: "closeInv (constructWith p)"
  by (simp add: closeInv_def constructWith_def prim_defs meth_defs Let_def)

lemma tick_quiet:
  assumes "closeInv s" and "now s + 1 \<notin> set (closeDues s)"
  shows "closeDues (tick s) = closeDues s \<and> quietView (tick s) = quietView s \<and>
         now (tick s) = now s + 1"
proof -
  let ?t = "now s + 1"
  let ?s1 = "s\<lparr>now := ?t, timers := concat (map (rearm ?t) (timers s))\<rparr>"
  let ?cs = "map cb (filter (\<lambda>x. due x = ?t) (timers s))"
  have nc: "CloseCb \<notin> set ?cs"
  proof
    assume "CloseCb \<in> set ?cs"
    then obtain x where "x \<in> set (timers s)" "due x = ?t" "cb x = CloseCb" by auto
    then have "?t \<in> set (closeDues s)" using closeDues_mem [of x s] by simp
    with assms(2) show False by simp
  qed
  have "\<forall>x\<in>set (filter (\<lambda>x. cb x = CloseCb) (timers s)). due x \<noteq> ?t"
  proof
    fix x assume "x \<in> set (filter (\<lambda>x. cb x = CloseCb) (timers s))"
    then have "due x \<in> set (closeDues s)" using closeDues_mem [of x s] by simp
    with assms(2) show "due x \<noteq> ?t" by auto
  qed
  from rearm_not_due [OF this]
  have "filter (\<lambda>x. cb x = CloseCb) (timers ?s1) = filter (\<lambda>x. cb x = CloseCb) (timers s)"
    by (simp add: rearm_cb)
  then have "closeDues ?s1 = closeDues s" by (simp add: closeDues_def)
  moreover have "quietView ?s1 = quietView s" by (simp add: quietView_def)
  ultimately show ?thesis
    unfolding tick_unfold using nonclose_fold [OF nc, of ?s1] fold_frame [of ?cs ?s1]
    by (simp add: closeDues_def)
qed

lemma close_kills: "kills (trace (closeNow s)) = kills (trace s) + 1"
  by (simp add: closeNow_def prim_defs dispose_def Let_def kills_def)

lemma close_dataExit:
  "dataExit (trace (closeNow s))
     = dataExit (trace s) @ (if disposed (onProcessExit s) then [] else [Exit (exitCode s)])"
  by (simp add: closeNow_def prim_defs dispose_def Let_def dataExit_def delivered_append)

lemma close_allDisposed: "allDisposed (closeNow s)"
  by (simp add: closeNow_def allDisposed_def prim_defs dispose_def Let_def)

lemma quiet_fold_view:
  assumes "allDisposed s" and "CloseCb \<notin> set cs"
  shows "allDisposed (fold runCallback cs s) \<and>
         kills (trace (fold runCallback cs s)) = kills (trace s) \<and>
         dataExit (trace (fold runCallback cs s)) = dataExit (trace s)"
  using quiet_fold [OF assms(1), of cs] nonclose_fold [OF assms(2), of s]
  by (simp add: quietView_def)

lemma tick_close:
  assumes "closeInv s" and "closeDues s = [now s + 1]"
  shows "allDisposed (tick s) \<and> kills (trace (tick s)) = kills (trace s) + 1 \<and>
         dataExit (trace (tick s))
           = dataExit (trace s) @ (if disposed (onProcessExit s) then [] else [Exit (exitCode s)])"
proof -
  let ?t = "now s + 1"
  let ?s1 = "s\<lparr>now := ?t, timers := concat (map (rearm ?t) (timers s))\<rparr>"
  let ?cs = "map cb (filter (\<lambda>x. due x = ?t) (timers s))"
  from assms(2) obtain x where x: "filter (\<lambda>x. cb x = CloseCb) (timers s) = [x]" "due x = ?t"
    by (auto simp: closeDues_def)
  have "filter (\<lambda>c. c = CloseCb) ?cs = [CloseCb]"
  proof -
    have "x \<in> set (filter (\<lambda>x. cb x = CloseCb) (timers s))"
      unfolding x(1) by simp
    then have "cb x = CloseCb" by simp
    then show ?thesis unfolding due_cb x(1) using x(2) by simp
  qed
  then obtain A B where cs: "?cs = A @ CloseCb # B"
      and A': "\<forall>u\<in>set A. u \<noteq> CloseCb" and B': "[] = filter (\<lambda>c. c = CloseCb) B"
    unfolding filter_eq_Cons_iff by blast
  have A: "CloseCb \<notin> set A" using A' by blast
  have B: "CloseCb \<notin> set B"
  proof
    assume "CloseCb \<in> set B"
    then have "CloseCb \<in> set (filter (\<lambda>c. c = CloseCb) B)" by simp
    with B' show False by simp
  qed
  let ?sA = "fold runCallback A ?s1"
  have vA: "quietView ?sA = quietView s"
    using nonclose_fold [OF A, of ?s1] by (simp add: quietView_def)
  have fin: "tick s = fold runCallback B (closeNow ?sA)"
    unfolding tick_unfold cs by simp
  from quiet_fold_view [OF close_allDisposed B, of ?sA]
  show ?thesis
    unfolding fin using vA by (simp add: close_kills close_dataExit quietView_def)
qed

lemma ticks_quiet:
  assumes "closeInv s" and "closeDues s = [T]" and "now s + n < T"
  shows "closeInv (run s (replicate n Tick)) \<and> closeDues (run s (replicate n Tick)) = [T] \<and>
         quietView (run s (replicate n Tick)) = quietView s \<and>
         now (run s (replicate n Tick)) = now s + n"
  using assms
proof (induction n arbitrary: s)
  case 0
  then show ?case by (simp add: run_Nil)
next
  case (Suc n)
  have nd: "now s + 1 \<notin> set (closeDues s)" using Suc.prems by simp
  note t = tick_quiet [OF Suc.prems(1) nd]
  have "closeInv (tick s)" by (rule closeInv_tick [OF Suc.prems(1)])
  moreover have "closeDues (tick s) = [T]" using t Suc.prems(2) by simp
  moreover have "now (tick s) + n < T" using t Suc.prems(3) by simp
  ultimately show ?case using Suc.IH [of "tick s"] t by (simp add: run_Cons)
qed

lemma ticks_250: "replicate 250 Tick = replicate 249 Tick @ [Tick]"
proof -
  have "replicate (Suc 249) Tick = replicate 249 Tick @ [Tick]"
    by (simp only: replicate_append_same replicate_Suc)
  then show ?thesis by simp
qed

lemma window_close:
  assumes "closeInv s" and "closeDues s = [now s + 250]"
  shows "allDisposed (run s (replicate 250 Tick)) \<and>
         kills (trace (run s (replicate 250 Tick))) = kills (trace s) + 1 \<and>
         dataExit (trace (run s (replicate 250 Tick)))
           = dataExit (trace s) @ (if disposed (onProcessExit s) then [] else [Exit (exitCode s)])"
proof -
  let ?m = "run s (replicate 249 Tick)"
  note sp = ticks_250
  have "now s + 249 < now s + 250" by simp
  note q = ticks_quiet [OF assms(1) assms(2) this]
  then have "closeDues ?m = [now ?m + 1]" by simp
  from tick_close [OF _ this] q
  show ?thesis unfolding sp run_append by (simp add: run_Cons run_Nil quietView_def)
qed

lemma burst_armed:
  assumes "closeInv s" and "closeDues s = [now s + 250]" and "closeTimeout s \<noteq> None"
    and "\<forall>(n, d)\<in>set chunks. n < 250"
  shows "closeInv (run s (burst chunks)) \<and>
         closeDues (run s (burst chunks)) = [now (run s (burst chunks)) + 250] \<and>
         closeTimeout (run s (burst chunks)) \<noteq> None \<and>
         exitCode (run s (burst chunks)) = exitCode s \<and>
         disposed (onProcessData (run s (burst chunks))) = disposed (onProcessData s) \<and>
         disposed (onProcessExit (run s (burst chunks))) = disposed (onProcessExit s) \<and>
         kills (trace (run s (burst chunks))) = kills (trace s) \<and>
         dataExit (trace (run s (burst chunks)))
           = dataExit (trace s) @
             (if disposed (onProcessData s) then [] else map (\<lambda>(n, d). Data d) chunks)"
  using assms
proof (induction chunks arbitrary: s)
  case Nil
  then show ?case by (simp add: burst_def run_Nil)
next
  case (Cons ch chunks)
  obtain n d where ch: "ch = (n, d)" by (cases ch)
  let ?a = "run s (replicate n Tick)"
  let ?b = "onPtyData d ?a"
  have n: "now s + n < now s + 250" using Cons.prems(4) ch by simp
  note q = ticks_quiet [OF Cons.prems(1) Cons.prems(2) n]
  then have ia: "closeInv ?a" and ca: "closeTimeout ?a \<noteq> None"
    using Cons.prems(3) by (simp_all add: quietView_def)
  note da = data_armed [OF ia ca, of d]
  have r: "run s (burst (ch # chunks)) = run ?b (burst chunks)"
    by (simp add: burst_def ch run_append run_Cons run_Nil)
  have 1: "closeInv ?b" and 2: "closeDues ?b = [now ?b + 250]" and 3: "closeTimeout ?b \<noteq> None"
    using da by simp_all
  have 4: "\<forall>(n, d)\<in>set chunks. n < 250" using Cons.prems(4) by simp
  from Cons.IH [OF 1 2 3 4] da q
  show ?case unfolding r by (auto simp: quietView_def ch)
qed

lemma trace_callback_grows: "\<exists>new. trace (runCallback c s) = trace s @ new"
  by (cases c) (simp_all add: prim_defs meth_defs Let_def)

lemma trace_fold_grows: "\<exists>new. trace (fold runCallback cs s) = trace s @ new"
proof (induction cs arbitrary: s)
  case Nil
  then show ?case by simp
next
  case (Cons c cs)
  obtain a where "trace (runCallback c s) = trace s @ a"
    using trace_callback_grows by blast
  moreover obtain b where "trace (fold runCallback cs (runCallback c s)) = trace (runCallback c s) @ b"
    using Cons.IH by blast
  ultimately show ?case by simp
qed

lemma trace_step_grows: "\<exists>new. trace (step x s) = trace s @ new"
proof (cases x)
  case Tick
  show ?thesis
    using trace_fold_grows
      [of "map cb (filter (\<lambda>x. due x = now s + 1) (timers s))"
          "s\<lparr>now := now s + 1, timers := concat (map (rearm (now s + 1)) (timers s))\<rparr>"]
    unfolding Tick step.simps tick_unfold by simp
qed (auto simp: prim_defs meth_defs Let_def split: option.splits prod.splits)

lemma trace_run_grows: "\<exists>new. trace (run s xs) = trace s @ new"
proof (induction xs arbitrary: s)
  case Nil
  then show ?case by (simp add: run_Nil)
next
  case (Cons x xs)
  obtain a where "trace (step x s) = trace s @ a"
    using trace_step_grows by blast
  moreover obtain b where "trace (run (step x s) xs) = trace (step x s) @ b"
    using Cons.IH by blast
  ultimately show ?case by (simp add: run_Cons)
qed

lemma exit_stays:
  "list_ex isExit (delivered (trace s)) \<Longrightarrow> list_ex isExit (delivered (trace (run s xs)))"
  using trace_run_grows [of s xs] by (auto simp: delivered_append)

lemma exit_dataExit: "filter isExit (dataExit es) = filter isExit (delivered es)"
  by (auto simp: dataExit_def intro: filter_cong)

lemma no_exit_iff:
  "\<not> list_ex isExit (delivered es) \<longleftrightarrow> filter isExit (dataExit es) = []"
  unfolding exit_dataExit by (simp add: list_ex_iff filter_empty_conv)

lemma live_no_exit:
  assumes "exitInv s" and "\<not> disposed (onProcessExit s)"
  shows "\<not> list_ex isExit (delivered (trace s))"
  using assms by (auto simp: exitInv_def allDisposed_def)

lemma exitCode_step: "\<forall>c. x \<noteq> RawExit c \<Longrightarrow> exitCode (step x s) = exitCode s"
proof (cases x)
  case Tick
  then show ?thesis using fold_frame by (simp add: tick_unfold)
qed (auto simp: prim_defs meth_defs Let_def split: option.splits prod.splits)

lemma exitCode_run: "\<forall>c. RawExit c \<notin> set xs \<Longrightarrow> exitCode (run s xs) = exitCode s"
proof (induction xs arbitrary: s)
  case Nil
  then show ?case by (simp add: run_Nil)
next
  case (Cons x xs)
  then have "\<forall>c. x \<noteq> RawExit c" by auto
  from exitCode_step [OF this] Cons show ?case by (simp add: run_Cons)
qed

lemma exitCode_construct: "exitCode (constructWith p) = None"
  by (simp add: constructWith_def prim_defs meth_defs Let_def)

section \<open>Trailing data and the exit event\<close>

text \<open>Claim C2. Take a session whose data and exit emitters are live. The pty reports
  exit with code \<open>c\<close>; then chunks arrive, each less than 250 time units after the
  event before it; then 250 time units pass with no arrival. Then the data and exit
  payloads delivered since the report are exactly the chunks, in order, followed by the
  exit payload with code \<open>c\<close>. The exit payload is delivered, and the process killed,
  in the last of the 250 time units and not before: after no proper prefix of the
  scenario has an exit payload been delivered.\<close>

theorem trailing_data_before_exit:
  assumes "s = run (constructWith p) pre"
    and "\<not> disposed (onProcessData s)" and "\<not> disposed (onProcessExit s)"
    and "\<forall>(n, d)\<in>set chunks. n < 250"
    and "xs = RawExit c # burst chunks @ replicate 250 Tick"
  shows "dataExit (trace (run s xs))
           = dataExit (trace s) @ map (\<lambda>(n, d). Data d) chunks @ [Exit (Some c)] \<and>
         \<not> list_ex isExit (dataExit (trace s)) \<and>
         (\<forall>k<length xs. \<not> list_ex isExit (delivered (trace (run s (take k xs))))) \<and>
         kills (trace (run s xs)) = kills (trace s) + 1 \<and>
         kills (trace (run s (butlast xs))) = kills (trace s)"
proof -
  have ci: "closeInv s" unfolding assms(1)
    by (rule closeInv_run) (rule closeInv_construct)
  have ei: "exitInv s" unfolding assms(1)
    by (rule exitInv_run) (rule exitInv_construct)
  have ne: "\<not> list_ex isExit (delivered (trace s))"
    by (rule live_no_exit [OF ei assms(3)])
  then have ne': "\<not> list_ex isExit (dataExit (trace s))"
    by (auto simp: dataExit_def list_ex_iff)
  let ?e = "onPtyExit c s"
  let ?b = "run ?e (burst chunks)"
  have "closeInv (s\<lparr>exitCode := Some c\<rparr>)" using ci by (simp add: closeInv_def)
  from queue_armed [OF this]
  have e: "closeInv ?e" "closeDues ?e = [now ?e + 250]" "closeTimeout ?e \<noteq> None"
    "exitCode ?e = Some c" "onProcessData ?e = onProcessData s" "onProcessExit ?e = onProcessExit s"
    "kills (trace ?e) = kills (trace s)" "dataExit (trace ?e) = dataExit (trace s)"
    by (simp_all add: onPtyExit_def dataExit_def)
  note b = burst_armed [OF e(1) e(2) e(3) assms(4)]
  then have b1: "closeInv ?b" and b2: "closeDues ?b = [now ?b + 250]" by simp_all
  have bv: "exitCode ?b = Some c" "\<not> disposed (onProcessExit ?b)"
    "kills (trace ?b) = kills (trace s)"
    "dataExit (trace ?b) = dataExit (trace s) @ map (\<lambda>(n, d). Data d) chunks"
    using b e assms(2) assms(3) by simp_all
  have full: "run s xs = run ?b (replicate 250 Tick)"
    unfolding assms(5) by (simp add: run_Cons run_append)
  note w = window_close [OF b1 b2]
  have A: "dataExit (trace (run s xs))
           = dataExit (trace s) @ map (\<lambda>(n, d). Data d) chunks @ [Exit (Some c)]"
    unfolding full using w bv by simp
  have D: "kills (trace (run s xs)) = kills (trace s) + 1"
    unfolding full using w bv by simp
  have bl: "butlast xs = RawExit c # burst chunks @ replicate 249 Tick"
    unfolding assms(5) ticks_250 by (simp add: butlast_append)
  have lastrun: "run s (butlast xs) = run ?b (replicate 249 Tick)"
    unfolding bl by (simp add: run_Cons run_append)
  have "now ?b + 249 < now ?b + 250" by simp
  note q = ticks_quiet [OF b1 b2 this]
  then have qv: "dataExit (trace (run s (butlast xs))) = dataExit (trace ?b)"
    and E: "kills (trace (run s (butlast xs))) = kills (trace s)"
    unfolding lastrun using bv by (simp_all add: quietView_def)
  have "filter isExit (dataExit (trace (run s (butlast xs)))) = []"
    using qv bv(4) ne' by (auto simp: list_ex_iff filter_empty_conv)
  then have nl: "\<not> list_ex isExit (delivered (trace (run s (butlast xs))))"
    by (simp add: no_exit_iff)
  have C: "\<not> list_ex isExit (delivered (trace (run s (take k xs))))" if "k < length xs" for k
  proof
    assume x: "list_ex isExit (delivered (trace (run s (take k xs))))"
    have "take k (butlast xs) = take k xs"
      using that by (rule take_butlast)
    then have "butlast xs = take k xs @ drop k (butlast xs)"
      using append_take_drop_id [of k "butlast xs"] by simp
    then have "run s (butlast xs) = run (run s (take k xs)) (drop k (butlast xs))"
      by (metis run_append)
    with exit_stays [OF x, of "drop k (butlast xs)"] nl show False by simp
  qed
  from A ne' C D E show ?thesis by blast
qed

theorem trailing_data_before_exit_witness:
  "\<not> disposed (onProcessData (run (constructWith \<lparr>pid = 42, process = ''bash''\<rparr>) [])) \<and>
   \<not> disposed (onProcessExit (run (constructWith \<lparr>pid = 42, process = ''bash''\<rparr>) [])) \<and>
   (100::nat) < 250 \<and> (249::nat) < 250 \<and>
   dataExit (trace (run (run (constructWith \<lparr>pid = 42, process = ''bash''\<rparr>) [])
       (RawExit 0 # burst [(100, ''a''), (249, ''b'')] @ replicate 250 Tick)))
     = dataExit (trace (run (constructWith \<lparr>pid = 42, process = ''bash''\<rparr>) [])) @
       map (\<lambda>(n, d). Data d) [(100::nat, ''a''), (249, ''b'')] @ [Exit (Some 0)]"
proof -
  have h1: "\<not> disposed (onProcessData (run (constructWith \<lparr>pid = 42, process = ''bash''\<rparr>) []))"
    by code_simp
  have h2: "\<not> disposed (onProcessExit (run (constructWith \<lparr>pid = 42, process = ''bash''\<rparr>) []))"
    by code_simp
  have h3: "\<forall>(n, d)\<in>set [(100::nat, ''a''), (249, ''b'')]. n < 250"
    by simp
  note t = trailing_data_before_exit [OF refl h1 h2 h3 refl, of 0]
  from t have c: "dataExit (trace (run (run (constructWith \<lparr>pid = 42, process = ''bash''\<rparr>) [])
       (RawExit 0 # burst [(100, ''a''), (249, ''b'')] @ replicate 250 Tick)))
     = dataExit (trace (run (constructWith \<lparr>pid = 42, process = ''bash''\<rparr>) [])) @
       map (\<lambda>(n, d). Data d) [(100::nat, ''a''), (249, ''b'')] @ [Exit (Some 0)]"
    by (rule conjunct1)
  have g1: "(100::nat) < 250" and g2: "(249::nat) < 250"
    by simp_all
  show ?thesis
    by (intro conjI) (rule h1, rule h2, rule g1, rule g2, rule c)
qed

section \<open>The process id event\<close>

lemma nonpid_callback:
  "SendProcessIdCb \<noteq> c \<Longrightarrow>
   filter isPidFire (trace (runCallback c s)) = filter isPidFire (trace s)"
  by (cases c) (auto simp: prim_defs meth_defs Let_def)

lemma nonpid_fold:
  "SendProcessIdCb \<notin> set cs \<Longrightarrow>
   filter isPidFire (trace (fold runCallback cs s)) = filter isPidFire (trace s)"
  by (induction cs arbitrary: s) (simp_all add: nonpid_callback)

lemma rearm_nonpid:
  assumes "\<forall>x\<in>set ts. cb x \<noteq> SendProcessIdCb"
  shows "\<forall>y\<in>set (concat (map (rearm t) ts)). cb y \<noteq> SendProcessIdCb"
proof
  fix y assume "y \<in> set (concat (map (rearm t) ts))"
  then obtain x where "x \<in> set ts" "cb y = cb x"
    using rearm_same [of y t ts] by blast
  with assms show "cb y \<noteq> SendProcessIdCb" by simp
qed

lemma due_nonpid:
  "\<forall>x\<in>set ts. cb x \<noteq> SendProcessIdCb \<Longrightarrow>
   SendProcessIdCb \<notin> set (map cb (filter (\<lambda>x. due x = t) ts))"
  by auto

lemma pid_tick_early:
  assumes "pidInv n s" and "now s + 1 < 500"
  shows "pidInv n (tick s)"
proof -
  let ?t = "now s + 1"
  from assms obtain rest where r: "timers s = pidTimer # rest"
      "\<forall>x\<in>set rest. cb x \<noteq> SendProcessIdCb"
    by (auto simp: pidInv_def)
  let ?s1 = "s\<lparr>now := ?t, timers := concat (map (rearm ?t) (timers s))\<rparr>"
  let ?cs = "map cb (filter (\<lambda>x. due x = ?t) (timers s))"
  have tm: "timers ?s1 = pidTimer # concat (map (rearm ?t) rest)"
    using assms(2) by (simp add: r(1) rearm_def pidTimer_def)
  have cs: "?cs = map cb (filter (\<lambda>x. due x = ?t) rest)"
    using assms(2) by (simp add: r(1) pidTimer_def)
  have np: "SendProcessIdCb \<notin> set ?cs"
    unfolding cs by (rule due_nonpid [OF r(2)])
  note f = nonpid_fold [OF np, of ?s1] and fr = fold_frame [of ?cs ?s1]
  show ?thesis
    unfolding tick_unfold pidInv_def
    using f fr tm rearm_nonpid [OF r(2), of ?t] assms by (auto simp: pidInv_def)
qed

lemma pid_tick_500:
  assumes "pidInv n s" and "now s + 1 = 500"
  shows "pidInv n (tick s) \<and>
         filter isPidFire (trace (tick s))
           = [Fired (ProcessIdReady n) (\<not> disposed (onProcessIdReady s))]"
proof -
  let ?t = "now s + 1"
  from assms obtain rest where r: "timers s = pidTimer # rest"
      "\<forall>x\<in>set rest. cb x \<noteq> SendProcessIdCb"
    by (auto simp: pidInv_def)
  let ?s1 = "s\<lparr>now := ?t, timers := concat (map (rearm ?t) (timers s))\<rparr>"
  let ?cs = "map cb (filter (\<lambda>x. due x = ?t) rest)"
  have tm: "timers ?s1 = concat (map (rearm ?t) rest)"
    using assms(2) by (simp add: r(1) rearm_def pidTimer_def)
  have tk: "tick s = fold runCallback ?cs (sendProcessId ?s1)"
    unfolding tick_unfold using assms(2) by (simp add: r(1) pidTimer_def)
  have np: "SendProcessIdCb \<notin> set ?cs"
    by (rule due_nonpid [OF r(2)])
  note f = nonpid_fold [OF np, of "sendProcessId ?s1"]
    and fr = fold_frame [of ?cs "sendProcessId ?s1"]
  have sp: "filter isPidFire (trace (sendProcessId ?s1))
      = [Fired (ProcessIdReady n) (\<not> disposed (onProcessIdReady s))]"
    using assms by (simp add: sendProcessId_def fire_def pidInv_def)
  have fr1: "timers (sendProcessId ?s1) = timers ?s1" "now (sendProcessId ?s1) = ?t"
    "nextTimer (sendProcessId ?s1) = nextTimer s" "closeTimeout (sendProcessId ?s1) = closeTimeout s"
    "ptyProcess (sendProcessId ?s1) = ptyProcess s"
    by (simp_all add: sendProcessId_def fire_def)
  show ?thesis
    unfolding tk pidInv_def
    using f fr sp fr1 tm rearm_nonpid [OF r(2), of ?t] assms by (auto simp: pidInv_def)
qed

lemma pid_tick_late:
  assumes "pidInv n s" and "500 \<le> now s"
  shows "pidInv n (tick s) \<and> filter isPidFire (trace (tick s)) = filter isPidFire (trace s)"
proof -
  let ?t = "now s + 1"
  from assms have r: "\<forall>x\<in>set (timers s). cb x \<noteq> SendProcessIdCb"
    by (auto simp: pidInv_def)
  let ?s1 = "s\<lparr>now := ?t, timers := concat (map (rearm ?t) (timers s))\<rparr>"
  let ?cs = "map cb (filter (\<lambda>x. due x = ?t) (timers s))"
  have np: "SendProcessIdCb \<notin> set ?cs"
    by (rule due_nonpid [OF r])
  note f = nonpid_fold [OF np, of ?s1] and fr = fold_frame [of ?cs ?s1]
  show ?thesis
    unfolding tick_unfold pidInv_def
    using f fr rearm_nonpid [OF r, of ?t] assms by (auto simp: pidInv_def)
qed

lemma pidInv_tick: "pidInv n s \<Longrightarrow> pidInv n (tick s)"
  using pid_tick_early [of n s] pid_tick_500 [of n s] pid_tick_late [of n s]
  by (cases "now s + 1 < 500"; cases "now s + 1 = 500") auto

lemma pidInv_clear:
  assumes "pidInv n s" and "3 \<le> h"
  shows "pidInv n (clearTimeout h s) \<and>
         filter isPidFire (trace (clearTimeout h s)) = filter isPidFire (trace s)"
proof (cases "now s < 500")
  case True
  with assms obtain rest where r: "timers s = pidTimer # rest"
      "\<forall>x\<in>set rest. cb x \<noteq> SendProcessIdCb"
    by (auto simp: pidInv_def)
  have "timers (clearTimeout h s) = pidTimer # filter (\<lambda>x. tid x \<noteq> h) rest"
    using assms(2) by (simp add: clearTimeout_def r(1) pidTimer_def)
  then show ?thesis using assms True r(2)
    by (auto simp: pidInv_def clearTimeout_def)
next
  case False
  then show ?thesis using assms by (auto simp: pidInv_def clearTimeout_def)
qed

lemma pidInv_queue:
  assumes "pidInv n s"
  shows "pidInv n (queueProcessExit s) \<and>
         filter isPidFire (trace (queueProcessExit s)) = filter isPidFire (trace s)"
proof -
  have set_close: "pidInv n (snd (setTimeout CloseCb 250 u)\<lparr>closeTimeout := Some (nextTimer u)\<rparr>) \<and>
      filter isPidFire (trace (snd (setTimeout CloseCb 250 u)\<lparr>closeTimeout := Some (nextTimer u)\<rparr>))
        = filter isPidFire (trace u)" if "pidInv n u" for u
    using that by (auto simp: pidInv_def setTimeout_def)
  show ?thesis
  proof (cases "closeTimeout s")
    case None
    then have "queueProcessExit s = snd (setTimeout CloseCb 250 s)\<lparr>closeTimeout := Some (nextTimer s)\<rparr>"
      by (simp add: queueProcessExit_def setTimeout_def)
    with set_close [OF assms] show ?thesis by simp
  next
    case (Some h)
    then have h: "3 \<le> h" using assms by (simp add: pidInv_def)
    let ?u = "clearTimeout h s"
    have "queueProcessExit s = snd (setTimeout CloseCb 250 ?u)\<lparr>closeTimeout := Some (nextTimer ?u)\<rparr>"
      using Some by (simp add: queueProcessExit_def setTimeout_def clearTimeout_def)
    with set_close [of ?u] pidInv_clear [OF assms h] show ?thesis by simp
  qed
qed

lemma pidInv_step_other:
  assumes "pidInv n s" and "x \<noteq> Tick"
  shows "pidInv n (step x s) \<and>
         filter isPidFire (trace (step x s)) = filter isPidFire (trace s)"
proof (cases x)
  case Tick
  with assms(2) show ?thesis by simp
next
  case (RawData d)
  let ?s1 = "fire (onProcessData s) (Data d) s"
  have b: "pidInv n ?s1" "filter isPidFire (trace ?s1) = filter isPidFire (trace s)"
    using assms(1) by (auto simp: pidInv_def fire_def)
  have c: "closeTimeout ?s1 = closeTimeout s" by (simp add: fire_def)
  show ?thesis
  proof (cases "closeTimeout s")
    case None
    then show ?thesis using b c RawData by (simp add: onPtyData_def Let_def)
  next
    case (Some h)
    then have "3 \<le> h" using assms(1) by (simp add: pidInv_def)
    note cl = pidInv_clear [OF b(1) this]
    from pidInv_queue [of n "clearTimeout h ?s1"] cl b(2)
    show ?thesis using c Some RawData by (simp add: onPtyData_def Let_def)
  qed
next
  case (RawExit c)
  have "pidInv n (s\<lparr>exitCode := Some c\<rparr>)" using assms(1) by (auto simp: pidInv_def)
  from pidInv_queue [OF this] show ?thesis using RawExit by (simp add: onPtyExit_def)
next
  case CallShutdown
  from pidInv_queue [OF assms(1)] show ?thesis using CallShutdown by (simp add: shutdown_def)
qed (use assms(1) in \<open>auto simp: pidInv_def prim_defs meth_defs\<close>)

lemma pidInv_step: "pidInv n s \<Longrightarrow> pidInv n (step x s)"
  using pidInv_step_other [of n s x] pidInv_tick [of n s] by (cases "x = Tick") auto

lemma pidInv_run: "pidInv n s \<Longrightarrow> pidInv n (run s xs)"
  unfolding run_def by (induction xs arbitrary: s) (simp_all add: pidInv_step)

lemma pidInv_construct: "pidInv (pid p) (constructWith p)"
  by (simp add: pidInv_def constructWith_def prim_defs meth_defs Let_def pidTimer_def)

lemma pid_fires_late_step:
  assumes "pidInv n s" and "500 \<le> now s"
  shows "filter isPidFire (trace (step x s)) = filter isPidFire (trace s)"
  using pidInv_step_other [OF assms(1), of x] pid_tick_late [OF assms]
  by (cases "x = Tick") auto

lemma pid_fires_late_run:
  assumes "pidInv n s" and "500 \<le> now s"
  shows "filter isPidFire (trace (run s xs)) = filter isPidFire (trace s)"
  using assms
proof (induction xs arbitrary: s)
  case Nil
  then show ?case by (simp add: run_Nil)
next
  case (Cons x xs)
  have "pidInv n (step x s)" by (rule pidInv_step [OF Cons.prems(1)])
  moreover have "500 \<le> now (step x s)" using Cons.prems(2) by (simp add: now_step)
  ultimately have "filter isPidFire (trace (run (step x s) xs)) = filter isPidFire (trace (step x s))"
    by (rule Cons.IH)
  with pid_fires_late_step [OF Cons.prems, of x] show ?case by (simp add: run_Cons)
qed

lemma pid_delivered_filter: "filter isPid (delivered es) = delivered (filter isPidFire es)"
  by (induction es rule: delivered.induct) auto

text \<open>Claim C5, as amended. Take a session whose handle reports a positive pid. In every
  execution the process id payload is delivered at most once, it is that positive pid,
  and it is never delivered after the exit payload. It is not delivered before the 500th
  time unit after construction. In the 500th time unit the one-shot timer fires it: it is
  delivered exactly once if the id emitter is live when that time unit begins, whatever
  happens afterwards, and never if the emitters were disposed before, by the close or by
  a call of \<open>dispose\<close>. A close timer due in the same time unit runs later, the timer
  of the process id being the older one.\<close>

theorem process_id_ready:
  assumes "0 < pid p"
  shows "length (filter isPid (delivered (trace (run (constructWith p) xs)))) \<le> 1 \<and>
   (ProcessIdReady m \<in> set (delivered (trace (run (constructWith p) xs)))
      \<longrightarrow> m = pid p \<and> 0 < m) \<and>
   (\<forall>pre c post. delivered (trace (run (constructWith p) xs)) = pre @ Exit c # post
      \<longrightarrow> \<not> list_ex isPid post) \<and>
   (length (filter (\<lambda>x. x = Tick) xs) < 500 \<longrightarrow>
      filter isPid (delivered (trace (run (constructWith p) xs))) = []) \<and>
   (\<forall>pre post. xs = pre @ Tick # post \<and> length (filter (\<lambda>x. x = Tick) pre) = 499 \<longrightarrow>
      filter isPid (delivered (trace (run (constructWith p) xs)))
        = (if disposed (onProcessIdReady (run (constructWith p) pre)) then []
           else [ProcessIdReady (pid p)]))"
proof -
  let ?s = "run (constructWith p) xs"
  let ?evs = "delivered (trace ?s)"
  have inv: "pidInv (pid p) ?s"
    by (rule pidInv_run) (rule pidInv_construct)
  have nw: "now ?s = length (filter (\<lambda>x. x = Tick) xs)"
    by (simp add: now_run now_construct)
  have fires: "filter isPidFire (trace ?s) = [] \<or>
      (\<exists>b. filter isPidFire (trace ?s) = [Fired (ProcessIdReady (pid p)) b])"
    using inv by (auto simp: pidInv_def split: if_splits)
  have a: "length (filter isPid ?evs) \<le> 1"
    unfolding pid_delivered_filter using fires by auto
  have b: "m = pid p \<and> 0 < m" if "ProcessIdReady m \<in> set ?evs"
  proof -
    from that have "ProcessIdReady m \<in> set (filter isPid ?evs)" by simp
    then have "ProcessIdReady m \<in> set (delivered (filter isPidFire (trace ?s)))"
      by (simp only: pid_delivered_filter)
    with fires have "m = pid p" by (auto split: if_splits)
    with assms show ?thesis by simp
  qed
  have "exitInv ?s"
    by (rule exitInv_run) (rule exitInv_construct)
  then have nb: "\<not> list_ex isExit (butlast ?evs)"
    by (simp add: exitInv_def)
  have "post = []" if "?evs = pre @ Exit c # post" for pre c post
  proof (rule ccontr)
    assume "post \<noteq> []"
    then have "butlast ?evs = pre @ Exit c # butlast post"
      using that by (simp add: butlast_append)
    then show False using nb by (simp add: list_ex_iff)
  qed
  then have c: "\<forall>pre c post. ?evs = pre @ Exit c # post \<longrightarrow> \<not> list_ex isPid post"
    by fastforce
  have d: "length (filter (\<lambda>x. x = Tick) xs) < 500 \<longrightarrow> filter isPid ?evs = []"
    unfolding pid_delivered_filter using inv nw by (auto simp: pidInv_def)
  have e: "filter isPid ?evs
        = (if disposed (onProcessIdReady (run (constructWith p) pre)) then []
           else [ProcessIdReady (pid p)])"
    if xs: "xs = pre @ Tick # post" and n: "length (filter (\<lambda>x. x = Tick) pre) = 499"
    for pre post
  proof -
    let ?a = "run (constructWith p) pre"
    have ia: "pidInv (pid p) ?a"
      by (rule pidInv_run) (rule pidInv_construct)
    have na: "now ?a + 1 = 500"
      using n by (simp add: now_run now_construct)
    note t = pid_tick_500 [OF ia na]
    have "500 \<le> now (tick ?a)" using na now_step [of Tick ?a] by simp
    from pid_fires_late_run [OF _ this, of "pid p" post] t
    have "filter isPidFire (trace (run (tick ?a) post))
        = [Fired (ProcessIdReady (pid p)) (\<not> disposed (onProcessIdReady ?a))]"
      by simp
    moreover have "?s = run (tick ?a) post"
      unfolding xs by (simp add: run_append run_Cons)
    ultimately show ?thesis
      unfolding pid_delivered_filter by simp
  qed
  from a b c d e show ?thesis by blast
qed

theorem process_id_ready_witness:
  "(0::int) < pid \<lparr>pid = 42, process = ''bash''\<rparr> \<and>
   length (filter (\<lambda>x. x = Tick) (replicate 499 Tick)) = 499 \<and>
   \<not> disposed (onProcessIdReady (run (constructWith \<lparr>pid = 42, process = ''bash''\<rparr>)
       (replicate 499 Tick))) \<and>
   filter isPid (delivered (trace (run (constructWith \<lparr>pid = 42, process = ''bash''\<rparr>)
       (replicate 499 Tick @ Tick # [CallDispose]))))
     = [ProcessIdReady 42] \<and>
   length (filter (\<lambda>x. x = Tick) (CallDispose # replicate 499 Tick)) = 499 \<and>
   disposed (onProcessIdReady (run (constructWith \<lparr>pid = 42, process = ''bash''\<rparr>)
       (CallDispose # replicate 499 Tick))) \<and>
   filter isPid (delivered (trace (run (constructWith \<lparr>pid = 42, process = ''bash''\<rparr>)
       ((CallDispose # replicate 499 Tick) @ Tick # []))))
     = [] \<and>
   length (filter (\<lambda>x. x = Tick) (replicate 499 Tick)) < 500 \<and>
   filter isPid (delivered (trace (run (constructWith \<lparr>pid = 42, process = ''bash''\<rparr>)
       (replicate 499 Tick)))) = []"
proof -
  let ?p = "\<lparr>pid = 42, process = ''bash''\<rparr>"
  have pos: "(0::int) < pid ?p"
    by simp
  have n1: "length (filter (\<lambda>x. x = Tick) (replicate 499 Tick)) = 499"
    by simp
  have l1: "\<not> disposed (onProcessIdReady (run (constructWith ?p) (replicate 499 Tick)))"
    by code_simp
  have n2: "length (filter (\<lambda>x. x = Tick) (CallDispose # replicate 499 Tick)) = 499"
    by simp
  have l2: "disposed (onProcessIdReady (run (constructWith ?p) (CallDispose # replicate 499 Tick)))"
    by code_simp
  have n3: "length (filter (\<lambda>x. x = Tick) (replicate 499 Tick)) < 500"
    by simp
  note t1 = process_id_ready [OF pos, of "replicate 499 Tick @ Tick # [CallDispose]" 42]
  from t1 have "\<forall>pre post. replicate 499 Tick @ Tick # [CallDispose] = pre @ Tick # post \<and>
        length (filter (\<lambda>x. x = Tick) pre) = 499 \<longrightarrow>
      filter isPid (delivered (trace (run (constructWith ?p) (replicate 499 Tick @ Tick # [CallDispose]))))
        = (if disposed (onProcessIdReady (run (constructWith ?p) pre)) then []
           else [ProcessIdReady (pid ?p)])"
    by (elim conjE)
  then have "replicate 499 Tick @ Tick # [CallDispose] = replicate 499 Tick @ Tick # [CallDispose] \<and>
        length (filter (\<lambda>x. x = Tick) (replicate 499 Tick)) = 499 \<longrightarrow>
      filter isPid (delivered (trace (run (constructWith ?p) (replicate 499 Tick @ Tick # [CallDispose]))))
        = (if disposed (onProcessIdReady (run (constructWith ?p) (replicate 499 Tick))) then []
           else [ProcessIdReady (pid ?p)])"
    by blast
  with n1 l1 have r1: "filter isPid (delivered (trace (run (constructWith ?p)
       (replicate 499 Tick @ Tick # [CallDispose])))) = [ProcessIdReady 42]"
    by simp
  note t2 = process_id_ready [OF pos, of "(CallDispose # replicate 499 Tick) @ Tick # []" 42]
  from t2 have "\<forall>pre post. (CallDispose # replicate 499 Tick) @ Tick # [] = pre @ Tick # post \<and>
        length (filter (\<lambda>x. x = Tick) pre) = 499 \<longrightarrow>
      filter isPid (delivered (trace (run (constructWith ?p) ((CallDispose # replicate 499 Tick) @ Tick # []))))
        = (if disposed (onProcessIdReady (run (constructWith ?p) pre)) then []
           else [ProcessIdReady (pid ?p)])"
    by (elim conjE)
  then have "(CallDispose # replicate 499 Tick) @ Tick # [] = (CallDispose # replicate 499 Tick) @ Tick # [] \<and>
        length (filter (\<lambda>x. x = Tick) (CallDispose # replicate 499 Tick)) = 499 \<longrightarrow>
      filter isPid (delivered (trace (run (constructWith ?p) ((CallDispose # replicate 499 Tick) @ Tick # []))))
        = (if disposed (onProcessIdReady (run (constructWith ?p) (CallDispose # replicate 499 Tick))) then []
           else [ProcessIdReady (pid ?p)])"
    by blast
  with n2 l2 have r2: "filter isPid (delivered (trace (run (constructWith ?p)
       ((CallDispose # replicate 499 Tick) @ Tick # [])))) = []"
    by (simp del: append_Cons)
  note t3 = process_id_ready [OF pos, of "replicate 499 Tick" 42]
  from t3 have "length (filter (\<lambda>x. x = Tick) (replicate 499 Tick)) < 500 \<longrightarrow>
      filter isPid (delivered (trace (run (constructWith ?p) (replicate 499 Tick)))) = []"
    by (elim conjE)
  with n3 have r3: "filter isPid (delivered (trace (run (constructWith ?p) (replicate 499 Tick)))) = []"
    by (rule rev_mp)
  show ?thesis
    by (intro conjI) (rule pos, rule n1, rule l1, rule r1, rule n2, rule l2, rule r2, rule n3, rule r3)
qed

text \<open>The claim as stated fails: when the process exits at once, the exit payload is
  delivered after 250 time units and the emitters are disposed, so the fire of the
  process id at 500 reaches nobody: the session delivers an exit and never a pid.\<close>

theorem process_id_lost_counterexample:
  "delivered (trace (run (constructWith \<lparr>pid = 42, process = ''bash''\<rparr>)
      (RawExit 0 # replicate 500 Tick))) = [TitleChanged ''bash'', Exit (Some 0)] \<and>
   filter isPidFire (trace (run (constructWith \<lparr>pid = 42, process = ''bash''\<rparr>)
      (RawExit 0 # replicate 500 Tick))) = [Fired (ProcessIdReady 42) False]"
  by code_simp

section \<open>Title polling\<close>

lemma titles_append: "titles (es @ fs) = titles es @ titles fs"
  by (induction es rule: titles.induct) simp_all

lemma nontitle_callback: "TitlePollCb \<noteq> c \<Longrightarrow> titleView (runCallback c s) = titleView s"
  by (cases c)
    (auto simp: titleView_def prim_defs meth_defs Let_def titles_append delivered_append)

lemma nontitle_fold: "TitlePollCb \<notin> set cs \<Longrightarrow> titleView (fold runCallback cs s) = titleView s"
  by (induction cs arbitrary: s) (simp_all add: nontitle_callback)

lemma title_disposed_callback:
  "disposed (onProcessTitleChanged s) \<Longrightarrow> disposed (onProcessTitleChanged (runCallback c s))"
  by (cases c) (auto simp: prim_defs meth_defs Let_def)

lemma title_disposed_fold:
  "disposed (onProcessTitleChanged s) \<Longrightarrow> disposed (onProcessTitleChanged (fold runCallback cs s))"
  by (induction cs arbitrary: s) (simp_all add: title_disposed_callback)

lemma poll_effect:
  "titles (trace (titlePoll s)) = titles (trace s) @ pollOut s"
  "currentTitle (titlePoll s) = process (ptyProcess s)"
  "ptyProcess (titlePoll s) = ptyProcess s"
  "onProcessTitleChanged (titlePoll s) = onProcessTitleChanged s"
  "\<not> disposed (onProcessTitleChanged s) \<Longrightarrow>
   filter isTitle (delivered (trace (titlePoll s)))
     = filter isTitle (delivered (trace s)) @ map TitleChanged (pollOut s)"
  by (auto simp: titlePoll_def sendProcessTitle_def fire_def Let_def pollOut_def titles_append
      delivered_append)

lemma mod200_step: "Suc t mod 200 = (if t mod 200 = 199 then 0 else Suc (t mod 200))"
  using mod_Suc [of t 200] by auto

lemma title_due: "due (titleTimer t) = t + 1 \<longleftrightarrow> (t + 1) mod 200 = 0"
proof -
  define r where "r = t mod 200"
  have r: "r < 200" by (simp add: r_def)
  have d: "due (titleTimer t) = t + (200 - r)" by (simp add: titleTimer_def r_def)
  have m: "(t + 1) mod 200 = (if r = 199 then 0 else Suc r)"
    using mod200_step [of t] by (simp add: r_def)
  show ?thesis unfolding d m using r by (auto split: if_splits)
qed

lemma title_rearm: "rearm (t + 1) (titleTimer t) = [titleTimer (t + 1)]"
proof -
  define r where "r = t mod 200"
  have r: "r < 200" by (simp add: r_def)
  have m: "(t + 1) mod 200 = (if r = 199 then 0 else Suc r)"
    using mod200_step [of t] by (simp add: r_def)
  have a: "titleTimer t = \<lparr>tid = 2, due = t + (200 - r), cb = TitlePollCb, period = Some 200\<rparr>"
    by (simp add: titleTimer_def r_def)
  have b: "titleTimer (t + 1)
      = \<lparr>tid = 2, due = t + 1 + (200 - (if r = 199 then 0 else Suc r)), cb = TitlePollCb,
         period = Some 200\<rparr>"
    unfolding titleTimer_def m ..
  show ?thesis unfolding a b using r by (auto simp: rearm_def)
qed

lemma filter_swap: "filter P (filter Q xs) = filter Q (filter P xs)"
  by (induction xs) auto

lemma titleInv_clear:
  assumes "titleInv s" and "3 \<le> h"
  shows "titleInv (clearTimeout h s)"
proof -
  have "filter (\<lambda>x. cb x = TitlePollCb) (filter (\<lambda>x. tid x \<noteq> h) (timers s))
      = filter (\<lambda>x. tid x \<noteq> h) (filter (\<lambda>x. cb x = TitlePollCb) (timers s))"
    by (rule filter_swap)
  also have "\<dots> = [titleTimer (now s)]"
    using assms by (simp add: titleInv_def titleTimer_def)
  finally show ?thesis
    using assms by (simp add: titleInv_def clearTimeout_def del: filter_filter)
qed

lemma titleInv_queue:
  assumes "titleInv s"
  shows "titleInv (queueProcessExit s)"
proof -
  have set_close: "titleInv (snd (setTimeout CloseCb 250 u)\<lparr>closeTimeout := Some (nextTimer u)\<rparr>)"
    if "titleInv u" for u
    using that by (auto simp: titleInv_def setTimeout_def)
  show ?thesis
  proof (cases "closeTimeout s")
    case None
    then have "queueProcessExit s = snd (setTimeout CloseCb 250 s)\<lparr>closeTimeout := Some (nextTimer s)\<rparr>"
      by (simp add: queueProcessExit_def setTimeout_def)
    with set_close [OF assms] show ?thesis by simp
  next
    case (Some h)
    then have h: "3 \<le> h" using assms by (simp add: titleInv_def)
    let ?u = "clearTimeout h s"
    have "queueProcessExit s = snd (setTimeout CloseCb 250 ?u)\<lparr>closeTimeout := Some (nextTimer ?u)\<rparr>"
      using Some by (simp add: queueProcessExit_def setTimeout_def clearTimeout_def)
    with set_close [of ?u] titleInv_clear [OF assms h] show ?thesis by simp
  qed
qed

lemma titleInv_tick:
  assumes "titleInv s"
  shows "titleInv (tick s)"
proof -
  let ?t = "now s + 1"
  let ?s1 = "s\<lparr>now := ?t, timers := concat (map (rearm ?t) (timers s))\<rparr>"
  let ?cs = "map cb (filter (\<lambda>x. due x = ?t) (timers s))"
  have "filter (\<lambda>x. cb x = TitlePollCb) (timers ?s1) = [titleTimer ?t]"
    using assms title_rearm [of "now s"] by (simp add: rearm_cb titleInv_def)
  then have "titleInv ?s1" using assms by (simp add: titleInv_def)
  then show ?thesis
    unfolding tick_unfold using fold_frame [of ?cs ?s1] by (simp add: titleInv_def)
qed

lemma title_step_other:
  assumes "x \<noteq> Tick"
  shows "titleView (step x s) = titleView s \<and> (titleInv s \<longrightarrow> titleInv (step x s))"
proof (cases x)
  case Tick
  with assms show ?thesis by simp
next
  case (RawData d)
  let ?s1 = "fire (onProcessData s) (Data d) s"
  have v1: "titleView ?s1 = titleView s"
    by (simp add: titleView_def fire_def titles_append delivered_append)
  have q: "titleView (queueProcessExit u) = titleView u" for u
    by (auto simp: titleView_def queueProcessExit_def setTimeout_def clearTimeout_def
        titles_append delivered_append split: option.splits)
  have c: "titleView (clearTimeout h u) = titleView u" for h u
    by (simp add: titleView_def clearTimeout_def titles_append delivered_append)
  have i1: "titleInv s \<Longrightarrow> titleInv ?s1" by (simp add: titleInv_def fire_def)
  show ?thesis
  proof (cases "closeTimeout s")
    case None
    then show ?thesis using v1 i1 RawData by (simp add: onPtyData_def Let_def fire_def)
  next
    case (Some h)
    have e: "step x s = queueProcessExit (clearTimeout h ?s1)"
      using Some RawData by (simp add: onPtyData_def Let_def fire_def)
    have "titleInv s \<Longrightarrow> titleInv (queueProcessExit (clearTimeout h ?s1))"
    proof -
      assume a: "titleInv s"
      then have "3 \<le> h" using Some by (simp add: titleInv_def)
      from titleInv_queue [OF titleInv_clear [OF i1 [OF a] this]] show ?thesis .
    qed
    then show ?thesis unfolding e using q c v1 by simp
  qed
next
  case (RawExit c)
  have q: "titleView (queueProcessExit u) = titleView u" for u
    by (auto simp: titleView_def queueProcessExit_def setTimeout_def clearTimeout_def
        titles_append delivered_append split: option.splits)
  have "titleInv s \<Longrightarrow> titleInv (s\<lparr>exitCode := Some c\<rparr>)" by (simp add: titleInv_def)
  then show ?thesis
    using RawExit q [of "s\<lparr>exitCode := Some c\<rparr>"] titleInv_queue [of "s\<lparr>exitCode := Some c\<rparr>"]
    by (auto simp: onPtyExit_def titleView_def)
next
  case CallShutdown
  have q: "titleView (queueProcessExit u) = titleView u" for u
    by (auto simp: titleView_def queueProcessExit_def setTimeout_def clearTimeout_def
        titles_append delivered_append split: option.splits)
  show ?thesis using CallShutdown q [of s] titleInv_queue [of s] by (simp add: shutdown_def)
qed (auto simp: titleView_def titleInv_def prim_defs meth_defs titles_append delivered_append)

lemma titleInv_step: "titleInv s \<Longrightarrow> titleInv (step x s)"
  using title_step_other [of x s] titleInv_tick [of s] by (cases "x = Tick") auto

lemma titleInv_run: "titleInv s \<Longrightarrow> titleInv (run s xs)"
  unfolding run_def by (induction xs arbitrary: s) (simp_all add: titleInv_step)

lemma titleInv_construct: "titleInv (constructWith p)"
  by (simp add: titleInv_def constructWith_def prim_defs meth_defs Let_def titleTimer_def)

lemma tick_no_poll:
  assumes "titleInv s" and "(now s + 1) mod 200 \<noteq> 0"
  shows "titleView (tick s) = titleView s"
proof -
  let ?t = "now s + 1"
  let ?s1 = "s\<lparr>now := ?t, timers := concat (map (rearm ?t) (timers s))\<rparr>"
  let ?cs = "map cb (filter (\<lambda>x. due x = ?t) (timers s))"
  have "filter (\<lambda>c. c = TitlePollCb) ?cs = []"
    unfolding due_cb using assms title_due [of "now s"] by (simp add: titleInv_def)
  then have "TitlePollCb \<notin> set ?cs"
    by (simp only: filter_empty_conv) blast
  from nontitle_fold [OF this, of ?s1] show ?thesis
    unfolding tick_unfold by (simp add: titleView_def)
qed

lemma tick_poll:
  assumes "titleInv s" and "(now s + 1) mod 200 = 0"
  shows "titles (trace (tick s)) = titles (trace s) @ pollOut s \<and>
         currentTitle (tick s) = process (ptyProcess s) \<and>
         (\<not> disposed (onProcessTitleChanged (tick s)) \<longrightarrow>
            filter isTitle (delivered (trace (tick s)))
              = filter isTitle (delivered (trace s)) @ map TitleChanged (pollOut s))"
proof -
  let ?t = "now s + 1"
  let ?s1 = "s\<lparr>now := ?t, timers := concat (map (rearm ?t) (timers s))\<rparr>"
  let ?cs = "map cb (filter (\<lambda>x. due x = ?t) (timers s))"
  have "filter (\<lambda>c. c = TitlePollCb) ?cs = [TitlePollCb]"
    unfolding due_cb using assms title_due [of "now s"] by (simp add: titleInv_def titleTimer_def)
  then obtain A B where cs: "?cs = A @ TitlePollCb # B"
      and A': "\<forall>u\<in>set A. u \<noteq> TitlePollCb" and B': "[] = filter (\<lambda>c. c = TitlePollCb) B"
    unfolding filter_eq_Cons_iff by blast
  have A: "TitlePollCb \<notin> set A" using A' by blast
  have B: "TitlePollCb \<notin> set B"
  proof
    assume "TitlePollCb \<in> set B"
    then have "TitlePollCb \<in> set (filter (\<lambda>c. c = TitlePollCb) B)" by simp
    with B' show False by simp
  qed
  let ?a = "fold runCallback A ?s1"
  let ?p = "titlePoll ?a"
  have fin: "tick s = fold runCallback B ?p"
    unfolding tick_unfold cs by simp
  have va: "titleView ?a = titleView s"
    using nontitle_fold [OF A, of ?s1] by (simp add: titleView_def)
  have pa: "ptyProcess ?a = ptyProcess s"
    using fold_frame [of A ?s1] by simp
  have po: "pollOut ?a = pollOut s"
    using va pa by (simp add: pollOut_def titleView_def)
  have vb: "titleView (tick s) = titleView ?p"
    unfolding fin by (rule nontitle_fold [OF B])
  have live: "\<not> disposed (onProcessTitleChanged ?a)"
    if "\<not> disposed (onProcessTitleChanged (tick s))"
    using that title_disposed_fold [of ?p B] unfolding fin by (auto simp: poll_effect)
  show ?thesis
    using vb va po pa poll_effect(1,2) [of ?a] poll_effect(5) [of ?a] live
    by (auto simp: titleView_def)
qed

text \<open>Claim C8. The constructor fires the title event with the handle's title and stores
  it, and only then starts the interval of period 200, whose closure is the title poll.
  In every execution the interval stays pending, due at the next multiple of 200: the
  poll runs in the time units 200, 400, 600 and so on after construction, and in no
  other. A poll that finds the handle's title equal to the stored one does nothing at
  all. A poll that finds it different calls \<open>fire\<close> on the title emitter exactly once,
  with the new title, which becomes the stored title in the same time unit; the payload
  is delivered when the title emitter is live. Between polls nothing is fired on the
  title emitter and the stored title does not change.\<close>

theorem title_polling:
  assumes "s = run (constructWith p) pre"
  shows
   "trace (constructWith p) =
     [SetTimeout 1 SendProcessIdCb 500, Fired (TitleChanged (process p)) True,
      SetInterval 2 TitlePollCb 200] \<and>
   currentTitle (constructWith p) = process p \<and>
   timers (constructWith p) =
     [\<lparr>tid = 1, due = 500, cb = SendProcessIdCb, period = None\<rparr>,
      \<lparr>tid = 2, due = 200, cb = TitlePollCb, period = Some 200\<rparr>] \<and>
   (currentTitle u = process (ptyProcess u) \<longrightarrow> runCallback TitlePollCb u = u) \<and>
   (currentTitle u \<noteq> process (ptyProcess u) \<longrightarrow>
      trace (runCallback TitlePollCb u) =
        trace u @ [Fired (TitleChanged (process (ptyProcess u)))
                     (\<not> disposed (onProcessTitleChanged u))] \<and>
      currentTitle (runCallback TitlePollCb u) = process (ptyProcess u) \<and>
      runCallback TitlePollCb (runCallback TitlePollCb u) = runCallback TitlePollCb u) \<and>
   now s = length (filter (\<lambda>x. x = Tick) pre) \<and>
   filter (\<lambda>x. cb x = TitlePollCb) (timers s) =
     [\<lparr>tid = 2, due = now s + (200 - now s mod 200), cb = TitlePollCb, period = Some 200\<rparr>] \<and>
   titles (trace (step Tick s)) =
     titles (trace s) @
     (if (now s + 1) mod 200 = 0 \<and> currentTitle s \<noteq> process (ptyProcess s)
      then [process (ptyProcess s)] else []) \<and>
   currentTitle (step Tick s) =
     (if (now s + 1) mod 200 = 0 then process (ptyProcess s) else currentTitle s) \<and>
   (\<not> disposed (onProcessTitleChanged (step Tick s)) \<longrightarrow>
      filter isTitle (delivered (trace (step Tick s))) =
        filter isTitle (delivered (trace s)) @
        (if (now s + 1) mod 200 = 0 \<and> currentTitle s \<noteq> process (ptyProcess s)
         then [TitleChanged (process (ptyProcess s))] else [])) \<and>
   (x \<noteq> Tick \<longrightarrow>
      titles (trace (step x s)) = titles (trace s) \<and>
      currentTitle (step x s) = currentTitle s)"
proof -
  have c: "trace (constructWith p) =
     [SetTimeout 1 SendProcessIdCb 500, Fired (TitleChanged (process p)) True,
      SetInterval 2 TitlePollCb 200] \<and>
   currentTitle (constructWith p) = process p \<and>
   timers (constructWith p) =
     [\<lparr>tid = 1, due = 500, cb = SendProcessIdCb, period = None\<rparr>,
      \<lparr>tid = 2, due = 200, cb = TitlePollCb, period = Some 200\<rparr>]"
    by (simp add: constructWith_def prim_defs meth_defs Let_def)
  have q: "(currentTitle u = process (ptyProcess u) \<longrightarrow> runCallback TitlePollCb u = u) \<and>
   (currentTitle u \<noteq> process (ptyProcess u) \<longrightarrow>
      trace (runCallback TitlePollCb u) =
        trace u @ [Fired (TitleChanged (process (ptyProcess u)))
                     (\<not> disposed (onProcessTitleChanged u))] \<and>
      currentTitle (runCallback TitlePollCb u) = process (ptyProcess u) \<and>
      runCallback TitlePollCb (runCallback TitlePollCb u) = runCallback TitlePollCb u)"
    by (simp add: prim_defs meth_defs Let_def)
  have inv: "titleInv s" unfolding assms
    by (rule titleInv_run) (rule titleInv_construct)
  have n: "now s = length (filter (\<lambda>x. x = Tick) pre)"
    unfolding assms by (simp add: now_run now_construct)
  have t: "filter (\<lambda>x. cb x = TitlePollCb) (timers s) =
     [\<lparr>tid = 2, due = now s + (200 - now s mod 200), cb = TitlePollCb, period = Some 200\<rparr>]"
    using inv by (simp add: titleInv_def titleTimer_def)
  have k: "titles (trace (step Tick s)) =
     titles (trace s) @
     (if (now s + 1) mod 200 = 0 \<and> currentTitle s \<noteq> process (ptyProcess s)
      then [process (ptyProcess s)] else []) \<and>
   currentTitle (step Tick s) =
     (if (now s + 1) mod 200 = 0 then process (ptyProcess s) else currentTitle s) \<and>
   (\<not> disposed (onProcessTitleChanged (step Tick s)) \<longrightarrow>
      filter isTitle (delivered (trace (step Tick s))) =
        filter isTitle (delivered (trace s)) @
        (if (now s + 1) mod 200 = 0 \<and> currentTitle s \<noteq> process (ptyProcess s)
         then [TitleChanged (process (ptyProcess s))] else []))"
  proof (cases "(now s + 1) mod 200 = 0")
    case True
    from tick_poll [OF inv True] True show ?thesis
      by (simp add: pollOut_def)
  next
    case False
    from tick_no_poll [OF inv False] False show ?thesis
      by (simp add: titleView_def)
  qed
  have o: "x \<noteq> Tick \<longrightarrow>
      titles (trace (step x s)) = titles (trace s) \<and> currentTitle (step x s) = currentTitle s"
    using title_step_other [of x s] by (simp add: titleView_def)
  from c q n t k o show ?thesis by blast
qed

theorem title_polling_witness:
  "currentTitle (constructWith \<lparr>pid = 42, process = ''bash''\<rparr>)
     = process (ptyProcess (constructWith \<lparr>pid = 42, process = ''bash''\<rparr>)) \<and>
   runCallback TitlePollCb (constructWith \<lparr>pid = 42, process = ''bash''\<rparr>)
     = constructWith \<lparr>pid = 42, process = ''bash''\<rparr> \<and>
   currentTitle (run (constructWith \<lparr>pid = 42, process = ''bash''\<rparr>)
       (SetTitle ''vim'' # replicate 199 Tick)) = ''bash'' \<and>
   process (ptyProcess (run (constructWith \<lparr>pid = 42, process = ''bash''\<rparr>)
       (SetTitle ''vim'' # replicate 199 Tick))) = ''vim'' \<and>
   titles (trace (run (constructWith \<lparr>pid = 42, process = ''bash''\<rparr>)
       (SetTitle ''vim'' # replicate 199 Tick))) = [''bash''] \<and>
   titles (trace (step Tick (run (constructWith \<lparr>pid = 42, process = ''bash''\<rparr>)
       (SetTitle ''vim'' # replicate 199 Tick)))) = [''bash'', ''vim''] \<and>
   currentTitle (step Tick (run (constructWith \<lparr>pid = 42, process = ''bash''\<rparr>)
       (SetTitle ''vim'' # replicate 199 Tick))) = ''vim'' \<and>
   CallShutdown \<noteq> Tick \<and>
   titles (trace (step CallShutdown (run (constructWith \<lparr>pid = 42, process = ''bash''\<rparr>)
       (SetTitle ''vim'' # replicate 199 Tick)))) = [''bash'']"
proof -
  let ?c = "constructWith \<lparr>pid = 42, process = ''bash''\<rparr>"
  let ?s = "run ?c (SetTitle ''vim'' # replicate 199 Tick)"
  have a: "currentTitle ?c = process (ptyProcess ?c)"
    by code_simp
  have b: "currentTitle ?s = ''bash''"
    by code_simp
  have c: "process (ptyProcess ?s) = ''vim''"
    by code_simp
  have d: "titles (trace ?s) = [''bash'']"
    by code_simp
  have e: "CallShutdown \<noteq> Tick"
    by simp
  have f: "length (filter (\<lambda>x. x = Tick) (SetTitle ''vim'' # replicate 199 Tick)) = 199"
    by simp
  note t0 = title_polling [OF refl, of "\<lparr>pid = 42, process = ''bash''\<rparr>" ?c "[]" Tick]
  from t0 have "currentTitle ?c = process (ptyProcess ?c) \<longrightarrow> runCallback TitlePollCb ?c = ?c"
    by (elim conjE)
  with a have r0: "runCallback TitlePollCb ?c = ?c"
    by (rule rev_mp)
  note t = title_polling [OF refl, of "\<lparr>pid = 42, process = ''bash''\<rparr>" ?c
      "SetTitle ''vim'' # replicate 199 Tick" CallShutdown]
  from t have nw: "now ?s = length (filter (\<lambda>x. x = Tick) (SetTitle ''vim'' # replicate 199 Tick))"
    by (elim conjE)
  then have nw': "now ?s = 199" unfolding f .
  from t have "titles (trace (step Tick ?s)) =
     titles (trace ?s) @
     (if (now ?s + 1) mod 200 = 0 \<and> currentTitle ?s \<noteq> process (ptyProcess ?s)
      then [process (ptyProcess ?s)] else [])"
    by (elim conjE)
  then have r1: "titles (trace (step Tick ?s)) = [''bash'', ''vim'']"
    unfolding nw' b c d by simp
  from t have "currentTitle (step Tick ?s) =
     (if (now ?s + 1) mod 200 = 0 then process (ptyProcess ?s) else currentTitle ?s)"
    by (elim conjE)
  then have r2: "currentTitle (step Tick ?s) = ''vim''"
    unfolding nw' b c by simp
  from t have "CallShutdown \<noteq> Tick \<longrightarrow>
      titles (trace (step CallShutdown ?s)) = titles (trace ?s) \<and>
      currentTitle (step CallShutdown ?s) = currentTitle ?s"
    by (elim conjE)
  with e have "titles (trace (step CallShutdown ?s)) = titles (trace ?s)"
    by blast
  then have r3: "titles (trace (step CallShutdown ?s)) = [''bash'']"
    unfolding d .
  show ?thesis
    by (intro conjI) (rule a, rule r0, rule b, rule c, rule d, rule r1, rule r2, rule e, rule r3)
qed

section \<open>Shutdown\<close>

lemma calm_step:
  assumes "calm x" and "x \<noteq> Tick"
  shows "closeDues (step x s) = closeDues s \<and> quietView (step x s) = quietView s \<and>
         now (step x s) = now s"
  using assms
  by (cases x) (auto simp: closeDues_def quietView_def prim_defs meth_defs kills_def dataExit_def
      delivered_append)

lemma calm_notick:
  "list_all calm w \<Longrightarrow> Tick \<notin> set w \<Longrightarrow> quietView (run s w) = quietView s"
proof (induction w arbitrary: s)
  case Nil
  then show ?case by (simp add: run_Nil)
next
  case (Cons x w)
  then have "calm x" "x \<noteq> Tick" by auto
  from calm_step [OF this, of s] Cons show ?case by (simp add: run_Cons)
qed

lemma calm_before:
  assumes "closeInv s" and "closeDues s = [T]" and "list_all calm w"
    and "now s + length (filter (\<lambda>x. x = Tick) w) < T"
  shows "closeInv (run s w) \<and> closeDues (run s w) = [T] \<and> quietView (run s w) = quietView s"
  using assms
proof (induction w arbitrary: s)
  case Nil
  then show ?case by (simp add: run_Nil)
next
  case (Cons x w)
  have ci: "closeInv (step x s)" by (rule closeInv_step [OF Cons.prems(1)])
  have cw: "list_all calm w" using Cons.prems(3) by simp
  show ?case
  proof (cases "x = Tick")
    case True
    have nd: "now s + 1 \<notin> set (closeDues s)" using Cons.prems(2,4) True by simp
    note t = tick_quiet [OF Cons.prems(1) nd]
    have "closeDues (step x s) = [T]" using t Cons.prems(2) True by simp
    moreover have "now (step x s) + length (filter (\<lambda>x. x = Tick) w) < T"
      using t Cons.prems(4) True by simp
    ultimately show ?thesis
      using Cons.IH [OF ci _ cw] t True by (simp add: run_Cons)
  next
    case False
    have "calm x" using Cons.prems(3) by simp
    note c = calm_step [OF this False, of s]
    have "closeDues (step x s) = [T]" using c Cons.prems(2) by simp
    moreover have "now (step x s) + length (filter (\<lambda>x. x = Tick) w) < T"
      using c Cons.prems(4) False by simp
    ultimately show ?thesis
      using Cons.IH [OF ci _ cw] c by (simp add: run_Cons)
  qed
qed

lemma calm_window:
  assumes "closeInv s" and "closeDues s = [T]" and "list_all calm w" and "now s < T"
    and "now s + length (filter (\<lambda>x. x = Tick) w) = T"
  shows "kills (trace (run s w)) = kills (trace s) + 1 \<and>
         dataExit (trace (run s w))
           = dataExit (trace s) @ (if disposed (onProcessExit s) then [] else [Exit (exitCode s)])"
  using assms
proof (induction w arbitrary: s)
  case Nil
  then show ?case by simp
next
  case (Cons x w)
  have ci: "closeInv (step x s)" by (rule closeInv_step [OF Cons.prems(1)])
  have cw: "list_all calm w" using Cons.prems(3) by simp
  show ?case
  proof (cases "x = Tick")
    case True
    show ?thesis
    proof (cases "now s + 1 = T")
      case fire: True
      have "closeDues s = [now s + 1]" using Cons.prems(2) fire by simp
      note c = tick_close [OF Cons.prems(1) this]
      define l where "l = length (filter (\<lambda>x. x = Tick) w)"
      have "now s + (1 + l) = T"
        using Cons.prems(5) True by (simp add: l_def)
      with fire have "l = 0" by arith
      then have "filter (\<lambda>x. x = Tick) w = []" by (simp add: l_def)
      then have "Tick \<notin> set w" by (auto simp: filter_empty_conv)
      from calm_notick [OF cw this, of "tick s"] c True
      show ?thesis by (simp add: run_Cons quietView_def)
    next
      case False
      have nd: "now s + 1 \<notin> set (closeDues s)" using Cons.prems(2) False by simp
      note t = tick_quiet [OF Cons.prems(1) nd]
      have "closeDues (step x s) = [T]" using t Cons.prems(2) True by simp
      moreover have "now (step x s) < T" using t Cons.prems(4) False True by simp
      moreover have "now (step x s) + length (filter (\<lambda>x. x = Tick) w) = T"
        using t Cons.prems(5) True by simp
      ultimately show ?thesis
        using Cons.IH [OF ci _ cw] t True by (simp add: run_Cons quietView_def)
    qed
  next
    case False
    have "calm x" using Cons.prems(3) by simp
    note c = calm_step [OF this False, of s]
    have "closeDues (step x s) = [T]" using c Cons.prems(2) by simp
    moreover have "now (step x s) < T" using c Cons.prems(4) by simp
    moreover have "now (step x s) + length (filter (\<lambda>x. x = Tick) w) = T"
      using c Cons.prems(5) False by simp
    ultimately show ?thesis
      using Cons.IH [OF ci _ cw] c by (simp add: run_Cons quietView_def)
  qed
qed

lemma armed_burst_window:
  assumes "closeInv e" and "closeDues e = [now e + 250]" and "closeTimeout e \<noteq> None"
    and "\<not> disposed (onProcessData e)" and "\<not> disposed (onProcessExit e)"
    and "\<not> list_ex isExit (delivered (trace e))"
    and "\<forall>(n, d)\<in>set chunks. n < 250"
    and "ys = burst chunks @ replicate 250 Tick"
  shows "dataExit (trace (run e ys))
           = dataExit (trace e) @ map (\<lambda>(n, d). Data d) chunks @ [Exit (exitCode e)] \<and>
         kills (trace (run e ys)) = kills (trace e) + 1 \<and>
         kills (trace (run e (butlast ys))) = kills (trace e) \<and>
         (\<forall>k<length ys. \<not> list_ex isExit (delivered (trace (run e (take k ys)))))"
proof -
  have ne': "filter isExit (dataExit (trace e)) = []"
    using assms(6) by (simp add: no_exit_iff)
  let ?b = "run e (burst chunks)"
  note b = burst_armed [OF assms(1) assms(2) assms(3) assms(7)]
  then have b1: "closeInv ?b" and b2: "closeDues ?b = [now ?b + 250]" by simp_all
  have bv: "exitCode ?b = exitCode e" "\<not> disposed (onProcessExit ?b)"
    "kills (trace ?b) = kills (trace e)"
    "dataExit (trace ?b) = dataExit (trace e) @ map (\<lambda>(n, d). Data d) chunks"
    using b assms(4) assms(5) by simp_all
  have full: "run e ys = run ?b (replicate 250 Tick)"
    unfolding assms(8) by (simp add: run_append)
  note w = window_close [OF b1 b2]
  have A: "dataExit (trace (run e ys))
           = dataExit (trace e) @ map (\<lambda>(n, d). Data d) chunks @ [Exit (exitCode e)]"
    unfolding full using w bv by simp
  have D: "kills (trace (run e ys)) = kills (trace e) + 1"
    unfolding full using w bv by simp
  have bl: "butlast ys = burst chunks @ replicate 249 Tick"
    unfolding assms(8) ticks_250 by (simp add: butlast_append)
  have lastrun: "run e (butlast ys) = run ?b (replicate 249 Tick)"
    unfolding bl by (simp add: run_append)
  have "now ?b + 249 < now ?b + 250" by simp
  note q = ticks_quiet [OF b1 b2 this]
  then have qv: "dataExit (trace (run e (butlast ys))) = dataExit (trace ?b)"
    and E: "kills (trace (run e (butlast ys))) = kills (trace e)"
    unfolding lastrun using bv by (simp_all add: quietView_def)
  have "filter isExit (dataExit (trace (run e (butlast ys)))) = []"
    using qv bv(4) ne' by (auto simp: filter_empty_conv)
  then have nl: "\<not> list_ex isExit (delivered (trace (run e (butlast ys))))"
    by (simp add: no_exit_iff)
  have C: "\<not> list_ex isExit (delivered (trace (run e (take k ys))))" if "k < length ys" for k
  proof
    assume x: "list_ex isExit (delivered (trace (run e (take k ys))))"
    have "take k (butlast ys) = take k ys"
      using that by (rule take_butlast)
    then have "butlast ys = take k ys @ drop k (butlast ys)"
      using append_take_drop_id [of k "butlast ys"] by simp
    then have "run e (butlast ys) = run (run e (take k ys)) (drop k (butlast ys))"
      by (metis run_append)
    with exit_stays [OF x, of "drop k (butlast ys)"] nl show False by simp
  qed
  from A C D E show ?thesis by blast
qed

text \<open>Claim C6, as amended. Take a session that is neither closed nor disposed (its
  data and exit emitters are live). A call of \<open>shutdown\<close> kills nothing and delivers
  nothing by itself; it starts the close debounce. If, during the debounce window after
  the call, no data arrives from the handle, the handle reports no exit, and neither
  \<open>shutdown\<close> nor \<open>dispose\<close> is called (time passing, title changes and calls of
  \<open>input\<close> and \<open>resize\<close> are allowed), then nothing is killed and no exit payload is
  delivered before the window has passed, and when it has passed, in the 250th time unit
  after the call, the process has been killed once and exactly one exit payload has been
  delivered, carrying the exit code recorded last (none when the pty never reported an
  exit). Data that arrives inside the window restarts the window: when chunks arrive,
  each less than 250 time units after the event before it, and then 250 time units pass,
  all chunks are delivered, and the kill and the one exit payload come in the last of
  these time units and not before.\<close>

theorem shutdown_debounced:
  assumes "s = run (constructWith p) pre"
    and "\<not> disposed (onProcessData s)" and "\<not> disposed (onProcessExit s)"
  shows "kills (trace (shutdown s)) = kills (trace s) \<and>
         delivered (trace (shutdown s)) = delivered (trace s) \<and>
         (\<forall>w. list_all calm w \<and> length (filter (\<lambda>x. x = Tick) w) < 250 \<longrightarrow>
              kills (trace (run s (CallShutdown # w))) = kills (trace s) \<and>
              \<not> list_ex isExit (delivered (trace (run s (CallShutdown # w))))) \<and>
         (\<forall>w. list_all calm w \<and> length (filter (\<lambda>x. x = Tick) w) = 250 \<longrightarrow>
              filter isExit (delivered (trace (run s (CallShutdown # w)))) = [Exit (exitCode s)] \<and>
              kills (trace (run s (CallShutdown # w))) = kills (trace s) + 1) \<and>
         (\<forall>chunks. (\<forall>(n, d)\<in>set chunks. n < 250) \<longrightarrow>
              dataExit (trace (run s (CallShutdown # burst chunks @ replicate 250 Tick)))
                = dataExit (trace s) @ map (\<lambda>(n, d). Data d) chunks @ [Exit (exitCode s)] \<and>
              kills (trace (run s (CallShutdown # burst chunks @ replicate 250 Tick)))
                = kills (trace s) + 1 \<and>
              kills (trace (run s (CallShutdown # butlast (burst chunks @ replicate 250 Tick))))
                = kills (trace s) \<and>
              (\<forall>k<length (burst chunks @ replicate 250 Tick).
                  \<not> list_ex isExit (delivered (trace (run s
                      (CallShutdown # take k (burst chunks @ replicate 250 Tick))))))) \<and>
         ((\<forall>c. RawExit c \<notin> set pre) \<longrightarrow> exitCode s = None)"
proof -
  have ci: "closeInv s" unfolding assms(1)
    by (rule closeInv_run) (rule closeInv_construct)
  have ei: "exitInv s" unfolding assms(1)
    by (rule exitInv_run) (rule exitInv_construct)
  have ne: "\<not> list_ex isExit (delivered (trace s))"
    by (rule live_no_exit [OF ei assms(3)])
  then have ne': "filter isExit (dataExit (trace s)) = []"
    by (simp add: no_exit_iff)
  let ?q = "shutdown s"
  from queue_armed [OF ci]
  have e: "closeInv ?q" "closeDues ?q = [now ?q + 250]" "closeTimeout ?q \<noteq> None"
    "exitCode ?q = exitCode s" "onProcessData ?q = onProcessData s"
    "onProcessExit ?q = onProcessExit s"
    "kills (trace ?q) = kills (trace s)" "delivered (trace ?q) = delivered (trace s)"
    by (simp_all add: shutdown_def)
  have dq: "dataExit (trace ?q) = dataExit (trace s)"
    using e(8) by (simp add: dataExit_def)
  have B: "kills (trace (run s (CallShutdown # w))) = kills (trace s) \<and>
           \<not> list_ex isExit (delivered (trace (run s (CallShutdown # w))))"
    if "list_all calm w" "length (filter (\<lambda>x. x = Tick) w) < 250" for w
  proof -
    have "now ?q + length (filter (\<lambda>x. x = Tick) w) < now ?q + 250" using that(2) by simp
    note q = calm_before [OF e(1) e(2) that(1) this]
    then have "kills (trace (run ?q w)) = kills (trace s)"
      and "dataExit (trace (run ?q w)) = dataExit (trace s)"
      using e(7) dq by (simp_all add: quietView_def)
    then show ?thesis
      using ne' by (simp add: run_Cons no_exit_iff)
  qed
  have C: "filter isExit (delivered (trace (run s (CallShutdown # w)))) = [Exit (exitCode s)] \<and>
           kills (trace (run s (CallShutdown # w))) = kills (trace s) + 1"
    if "list_all calm w" "length (filter (\<lambda>x. x = Tick) w) = 250" for w
  proof -
    have lt: "now ?q < now ?q + 250" by simp
    have eq: "now ?q + length (filter (\<lambda>x. x = Tick) w) = now ?q + 250" using that(2) by simp
    note w = calm_window [OF e(1) e(2) that(1) lt eq]
    have "filter isExit (dataExit (trace (run ?q w))) = [Exit (exitCode s)]"
      using w e(4) e(6) dq ne' assms(3) by simp
    then have x: "filter isExit (delivered (trace (run ?q w))) = [Exit (exitCode s)]"
      unfolding exit_dataExit .
    have k: "kills (trace (run ?q w)) = kills (trace s) + 1"
      using w e(7) by simp
    have r: "run s (CallShutdown # w) = run ?q w"
      by (simp add: run_Cons)
    show ?thesis unfolding r using x k by (rule conjI)
  qed
  have D: "dataExit (trace (run s (CallShutdown # burst chunks @ replicate 250 Tick)))
                = dataExit (trace s) @ map (\<lambda>(n, d). Data d) chunks @ [Exit (exitCode s)] \<and>
              kills (trace (run s (CallShutdown # burst chunks @ replicate 250 Tick)))
                = kills (trace s) + 1 \<and>
              kills (trace (run s (CallShutdown # butlast (burst chunks @ replicate 250 Tick))))
                = kills (trace s) \<and>
              (\<forall>k<length (burst chunks @ replicate 250 Tick).
                  \<not> list_ex isExit (delivered (trace (run s
                      (CallShutdown # take k (burst chunks @ replicate 250 Tick))))))"
    if g: "\<forall>(n, d)\<in>set chunks. n < 250" for chunks
  proof -
    have l1: "\<not> disposed (onProcessData ?q)" using e(5) assms(2) by simp
    have l2: "\<not> disposed (onProcessExit ?q)" using e(6) assms(3) by simp
    have l3: "\<not> list_ex isExit (delivered (trace ?q))" using e(8) ne by simp
    from armed_burst_window [OF e(1) e(2) e(3) l1 l2 l3 g refl]
    show ?thesis using e(4) e(7) dq by (simp add: run_Cons)
  qed
  have E: "(\<forall>c. RawExit c \<notin> set pre) \<longrightarrow> exitCode s = None"
    unfolding assms(1) using exitCode_run [of pre "constructWith p"] exitCode_construct by simp
  from e(7) e(8) B C D E show ?thesis by blast
qed

theorem shutdown_debounced_witness:
  "\<not> disposed (onProcessData (run (constructWith \<lparr>pid = 42, process = ''bash''\<rparr>) [Tick, RawData ''a''])) \<and>
   \<not> disposed (onProcessExit (run (constructWith \<lparr>pid = 42, process = ''bash''\<rparr>) [Tick, RawData ''a''])) \<and>
   list_all calm (replicate 100 Tick @ [CallInput ''x'', SetTitle ''t''] @ replicate 150 Tick) \<and>
   length (filter (\<lambda>x. x = Tick)
     (replicate 100 Tick @ [CallInput ''x'', SetTitle ''t''] @ replicate 150 Tick)) = 250 \<and>
   filter isExit (delivered (trace (run (run (constructWith \<lparr>pid = 42, process = ''bash''\<rparr>) [Tick, RawData ''a''])
      (CallShutdown # replicate 100 Tick @ [CallInput ''x'', SetTitle ''t''] @ replicate 150 Tick))))
     = [Exit None] \<and>
   list_all calm (replicate 249 Tick) \<and>
   length (filter (\<lambda>x. x = Tick) (replicate 249 Tick)) < 250 \<and>
   kills (trace (run (run (constructWith \<lparr>pid = 42, process = ''bash''\<rparr>) [Tick, RawData ''a''])
      (CallShutdown # replicate 249 Tick)))
     = kills (trace (run (constructWith \<lparr>pid = 42, process = ''bash''\<rparr>) [Tick, RawData ''a''])) \<and>
   (100::nat) < 250 \<and>
   kills (trace (run (run (constructWith \<lparr>pid = 42, process = ''bash''\<rparr>) [Tick, RawData ''a''])
      (CallShutdown # burst [(100, ''x'')] @ replicate 250 Tick)))
     = kills (trace (run (constructWith \<lparr>pid = 42, process = ''bash''\<rparr>) [Tick, RawData ''a''])) + 1"
proof -
  let ?s = "run (constructWith \<lparr>pid = 42, process = ''bash''\<rparr>) [Tick, RawData ''a'']"
  let ?w = "replicate 100 Tick @ [CallInput ''x'', SetTitle ''t''] @ replicate 150 Tick"
  have h1: "\<not> disposed (onProcessData ?s)"
    by code_simp
  have h2: "\<not> disposed (onProcessExit ?s)"
    by code_simp
  have n: "\<forall>c. RawExit c \<notin> set [Tick, RawData ''a'']"
    by simp
  have c1: "list_all calm ?w"
    by (simp add: list_all_iff)
  have t1: "length (filter (\<lambda>x. x = Tick) ?w) = 250"
    by simp
  have c2: "list_all calm (replicate 249 Tick)"
    by (simp add: list_all_iff)
  have t2: "length (filter (\<lambda>x. x = Tick) (replicate 249 Tick)) < 250"
    by simp
  have g0: "(100::nat) < 250"
    by simp
  have g: "\<forall>(n, d)\<in>set [(100::nat, ''x'')]. n < 250"
    by simp
  note t = shutdown_debounced [OF refl h1 h2]
  from t have "\<forall>w. list_all calm w \<and> length (filter (\<lambda>x. x = Tick) w) < 250 \<longrightarrow>
              kills (trace (run ?s (CallShutdown # w))) = kills (trace ?s) \<and>
              \<not> list_ex isExit (delivered (trace (run ?s (CallShutdown # w))))"
    by (elim conjE)
  with c2 t2 have k: "kills (trace (run ?s (CallShutdown # replicate 249 Tick))) = kills (trace ?s)"
    by blast
  from t have "\<forall>w. list_all calm w \<and> length (filter (\<lambda>x. x = Tick) w) = 250 \<longrightarrow>
              filter isExit (delivered (trace (run ?s (CallShutdown # w)))) = [Exit (exitCode ?s)] \<and>
              kills (trace (run ?s (CallShutdown # w))) = kills (trace ?s) + 1"
    by (elim conjE)
  with c1 t1 have e: "filter isExit (delivered (trace (run ?s (CallShutdown # ?w))))
      = [Exit (exitCode ?s)]"
    by blast
  from t n have c: "exitCode ?s = None"
    by (elim conjE) (erule mp)
  from e have e': "filter isExit (delivered (trace (run ?s (CallShutdown # ?w)))) = [Exit None]"
    unfolding c .
  from t have "\<forall>chunks. (\<forall>(n, d)\<in>set chunks. n < 250) \<longrightarrow>
              dataExit (trace (run ?s (CallShutdown # burst chunks @ replicate 250 Tick)))
                = dataExit (trace ?s) @ map (\<lambda>(n, d). Data d) chunks @ [Exit (exitCode ?s)] \<and>
              kills (trace (run ?s (CallShutdown # burst chunks @ replicate 250 Tick)))
                = kills (trace ?s) + 1 \<and>
              kills (trace (run ?s (CallShutdown # butlast (burst chunks @ replicate 250 Tick))))
                = kills (trace ?s) \<and>
              (\<forall>k<length (burst chunks @ replicate 250 Tick).
                  \<not> list_ex isExit (delivered (trace (run ?s
                      (CallShutdown # take k (burst chunks @ replicate 250 Tick))))))"
    by (elim conjE)
  with g have b: "kills (trace (run ?s (CallShutdown # burst [(100, ''x'')] @ replicate 250 Tick)))
      = kills (trace ?s) + 1"
    by blast
  show ?thesis
    by (intro conjI) (rule h1, rule h2, rule c1, rule t1, rule e', rule c2, rule t2, rule k,
        rule g0, rule b)
qed

text \<open>The claim as stated fails: the kill and the exit event need not come within one
  debounce window of the call. A chunk of data that arrives 100 time units after the call
  restarts the window, so that 250 time units after the call nothing has been killed and
  no exit payload delivered; both happen 350 time units after the call.\<close>

theorem shutdown_window_counterexample:
  "kills (trace (run (constructWith \<lparr>pid = 42, process = ''bash''\<rparr>)
      (CallShutdown # replicate 100 Tick @ RawData ''x'' # replicate 150 Tick))) = 0 \<and>
   delivered (trace (run (constructWith \<lparr>pid = 42, process = ''bash''\<rparr>)
      (CallShutdown # replicate 100 Tick @ RawData ''x'' # replicate 150 Tick)))
     = [TitleChanged ''bash'', Data ''x''] \<and>
   delivered (trace (run (constructWith \<lparr>pid = 42, process = ''bash''\<rparr>)
      (CallShutdown # replicate 100 Tick @ RawData ''x'' # replicate 250 Tick)))
     = [TitleChanged ''bash'', Data ''x'', Exit None]"
  by code_simp

end
